theory Spec2Isabelle
  imports Main "HOL-Library.Word"
begin

section \<open>The order book of \<^verbatim>\<open>src/main.cpp\<close> and its near-duplicate\<close>

text \<open>
  The development embeds the matching engine \<^verbatim>\<open>OrderBook\<close> of \<^verbatim>\<open>src/main.cpp\<close>
  and the second copy of it found in the repository (\<^verbatim>\<open>part_001\<close>), which differs from
  the first in the tail of \<^verbatim>\<open>MatchOrders\<close> and has no \<^verbatim>\<open>ModifyOrder\<close>.

  Conventions of the embedding:
  \<^item> \<^verbatim>\<open>Quantity\<close>, \<^verbatim>\<open>Price\<close> and \<^verbatim>\<open>OrderId\<close> are \<^verbatim>\<open>std::int32_t\<close>: 32-bit words,
    compared with the signed orders \<open>\<le>s\<close> and \<open><s\<close>; subtraction wraps around.
  \<^item> A \<^verbatim>\<open>std::map\<close> is the list of its (key, value) pairs in iteration order, so
    \<^verbatim>\<open>begin()\<close> is the head of the list. A \<^verbatim>\<open>std::unordered_map\<close> is a partial function.
  \<^item> A \<^verbatim>\<open>std::list<OrderPointer>\<close> is a list of nodes. A node carries the order it
    points to and a handle that no other node of the book has; the handle stands for
    the \<^verbatim>\<open>OrderPointers::iterator\<close> that \<^verbatim>\<open>OrderEntry\<close> stores. Every order handed to
    \<^verbatim>\<open>AddOrder\<close> is taken to be a fresh object that nothing else points to.
  \<^item> An \<^verbatim>\<open>OrderEntry\<close> shares the order with the queue node. The engine reads through
    the entry only members that never change (identifier, type, price, side), so the
    entry keeps the order as it was submitted; the remaining quantity of a live order
    is the one in its queue node.
  \<^item> The loops read through references to elements that the same iteration has just
    removed from a container (\<^verbatim>\<open>bid\<close> after \<^verbatim>\<open>pop_front\<close>, \<^verbatim>\<open>bids\<close> and \<^verbatim>\<open>bidPrice\<close>
    after \<^verbatim>\<open>bids_.erase\<close>, \<^verbatim>\<open>existingOrder\<close> after \<^verbatim>\<open>CancelOrder\<close>). The embedding gives
    such a read the value the element had when it was removed: the order's fields for
    \<^verbatim>\<open>bid\<close>, the empty list for an erased level.
  \<^item> The second copy also reads \<^verbatim>\<open>quantity\<close>, a reference bound to a temporary that is
    dead when it is read. That read is given no value: the run ends there with the
    outcome \<open>DanglingRead\<close>.
\<close>

subsection \<open>Orders\<close>

datatype Side = Buy | Sell

datatype OrderType = FillAndKill | GoodTillCancel

type_synonym Quantity = "32 word"
type_synonym Price = "32 word"
type_synonym OrderId = "32 word"

record Order =
  GetOrderId :: OrderId
  GetOrderType :: OrderType
  GetInitialQuantity :: Quantity
  GetRemainingQuantity :: Quantity
  GetPrice :: Price
  GetSide :: Side

text \<open>The constructor \<^verbatim>\<open>Order::Order\<close>: the remaining quantity starts as the initial one.\<close>

definition Order_new :: "OrderId \<Rightarrow> OrderType \<Rightarrow> Quantity \<Rightarrow> Price \<Rightarrow> Side \<Rightarrow> Order" where
  "Order_new orderId orderType quantity price side =
     \<lparr>GetOrderId = orderId, GetOrderType = orderType, GetInitialQuantity = quantity,
      GetRemainingQuantity = quantity, GetPrice = price, GetSide = side\<rparr>"

definition isFilled :: "Order \<Rightarrow> bool" where
  "isFilled x = (GetRemainingQuantity x = 0)"

text \<open>
  The ways a call ends without returning: \<open>OverfillError\<close> is the \<^verbatim>\<open>std::logic_error\<close>
  that \<^verbatim>\<open>Order::Fill\<close> throws, with the order's identifier; \<open>DanglingRead\<close> is a read
  through a reference to a temporary whose lifetime has ended, after which C++ gives the
  run no meaning. Nothing in \<^verbatim>\<open>src/main.cpp\<close> ends with \<open>DanglingRead\<close>.
\<close>

datatype error = OverfillError OrderId | DanglingRead

definition Fill :: "Order \<Rightarrow> Quantity \<Rightarrow> error + Order" where
  "Fill x quantity =
     (if GetRemainingQuantity x <s quantity then Inl (OverfillError (GetOrderId x))
      else Inr (x\<lparr>GetRemainingQuantity := GetRemainingQuantity x - quantity\<rparr>))"

text \<open>\<^verbatim>\<open>std::min(a, b)\<close> on \<^verbatim>\<open>int32_t\<close>: \<^verbatim>\<open>b\<close> when \<^verbatim>\<open>b < a\<close>, else \<^verbatim>\<open>a\<close>.\<close>

definition std_min :: "Quantity \<Rightarrow> Quantity \<Rightarrow> Quantity" where
  "std_min a b = (if b <s a then b else a)"

text \<open>\<^verbatim>\<open>OrderModify\<close> and its \<^verbatim>\<open>ToOrderPointer\<close>.\<close>

record OrderModify =
  GetModifyOrderId :: OrderId
  GetOrderSide :: Side
  GetOrderQuantity :: Quantity
  GetOrderPrice :: Price

definition ToOrderPointer :: "OrderModify \<Rightarrow> OrderType \<Rightarrow> Order" where
  "ToOrderPointer m orderType =
     Order_new (GetModifyOrderId m) orderType (GetOrderQuantity m) (GetOrderPrice m)
       (GetOrderSide m)"

subsection \<open>Trades\<close>

record TradeInfos =
  orderId :: OrderId
  price :: Price
  quantity :: Quantity

record Trade =
  bidTrade :: TradeInfos
  askTrade :: TradeInfos

type_synonym Trades = "Trade list"

subsection \<open>Queues, price levels and the index\<close>

type_synonym OrderPointers = "(nat \<times> Order) list"

type_synonym Levels = "(Price \<times> OrderPointers) list"

record OrderEntry =
  order :: Order
  location :: nat

record OrderBook =
  bids_map :: Levels
  asks_map :: Levels
  orders_map :: "OrderId \<rightharpoonup> OrderEntry"
  allocated :: nat

text \<open>
  \<open>allocated\<close> counts the queue nodes created so far; it is the handle of the next node.
  The book a default-constructed \<^verbatim>\<open>OrderBook\<close> holds:
\<close>

definition empty_book :: OrderBook where
  "empty_book = \<lparr>bids_map = [], asks_map = [], orders_map = Map.empty, allocated = 0\<rparr>"

text \<open>The comparators \<^verbatim>\<open>std::greater<Price>\<close> of the bids and \<^verbatim>\<open>std::less<Price>\<close> of the asks.\<close>

definition std_greater :: "Price \<Rightarrow> Price \<Rightarrow> bool" where
  "std_greater a b = (b <s a)"

definition std_less :: "Price \<Rightarrow> Price \<Rightarrow> bool" where
  "std_less a b = (a <s b)"

text \<open>
  \<^verbatim>\<open>m[p]\<close> finds the level of price \<open>p\<close> and first inserts an empty one, at its place in
  the order of the comparator, when there is none. \<open>map_subscript\<close> is the map after
  that, \<open>map_get\<close> the list the returned reference denotes, \<open>map_put\<close> a write through
  the reference, and \<open>map_erase\<close> is \<^verbatim>\<open>m.erase(p)\<close>.
\<close>

fun map_subscript :: "(Price \<Rightarrow> Price \<Rightarrow> bool) \<Rightarrow> Levels \<Rightarrow> Price \<Rightarrow> Levels" where
  "map_subscript cmp [] p = [(p, [])]"
| "map_subscript cmp ((k, q) # m) p =
     (if k = p then (k, q) # m
      else if cmp p k then (p, []) # (k, q) # m
      else (k, q) # map_subscript cmp m p)"

definition map_get :: "Levels \<Rightarrow> Price \<Rightarrow> OrderPointers" where
  "map_get m p = (case map_of m p of None \<Rightarrow> [] | Some q \<Rightarrow> q)"

definition map_put :: "Levels \<Rightarrow> Price \<Rightarrow> OrderPointers \<Rightarrow> Levels" where
  "map_put m p q = map (\<lambda>(k, v). if k = p then (k, q) else (k, v)) m"

definition map_erase :: "Levels \<Rightarrow> Price \<Rightarrow> Levels" where
  "map_erase m p = filter (\<lambda>(k, v). k \<noteq> p) m"

text \<open>\<^verbatim>\<open>orders.erase(location)\<close>: the node with that handle leaves the list.\<close>

definition list_erase :: "OrderPointers \<Rightarrow> nat \<Rightarrow> OrderPointers" where
  "list_erase q loc = filter (\<lambda>n. fst n \<noteq> loc) q"

text \<open>\<^verbatim>\<open>orders_.insert\<close> keeps an entry that is already there.\<close>

definition umap_insert :: "(OrderId \<rightharpoonup> OrderEntry) \<Rightarrow> OrderId \<Rightarrow> OrderEntry \<Rightarrow> (OrderId \<rightharpoonup> OrderEntry)" where
  "umap_insert m k e = (if m k = None then m(k \<mapsto> e) else m)"

subsection \<open>\<^verbatim>\<open>CanMatch\<close> and \<^verbatim>\<open>CancelOrder\<close>\<close>

definition CanMatch :: "OrderBook \<Rightarrow> Side \<Rightarrow> Price \<Rightarrow> bool" where
  "CanMatch b side p =
     (if side = Buy then
        (case asks_map b of [] \<Rightarrow> False | (bestAsks, _) # _ \<Rightarrow> bestAsks \<le>s p)
      else
        (case bids_map b of [] \<Rightarrow> False | (bestBids, _) # _ \<Rightarrow> p \<le>s bestBids))"

definition CancelOrder :: "OrderBook \<Rightarrow> OrderId \<Rightarrow> OrderBook" where
  "CancelOrder b k =
     (case orders_map b k of
        None \<Rightarrow> b
      | Some e \<Rightarrow>
          (let p = GetPrice (order e) in
           if GetSide (order e) = Buy then
             (let m = map_subscript std_greater (bids_map b) p;
                  orders = list_erase (map_get m p) (location e)
              in b\<lparr>bids_map := (if orders = [] then map_erase m p else map_put m p orders),
                   orders_map := (orders_map b)(GetOrderId (order e) := None)\<rparr>)
           else
             (let m = map_subscript std_less (asks_map b) p;
                  orders = list_erase (map_get m p) (location e)
              in b\<lparr>asks_map := (if orders = [] then map_erase m p else map_put m p orders),
                   orders_map := (orders_map b)(GetOrderId (order e) := None)\<rparr>)))"

subsection \<open>\<^verbatim>\<open>MatchOrders\<close>\<close>

text \<open>
  One run of the body of the inner loop (lines 155 to 177 of \<^verbatim>\<open>src/main.cpp\<close>, 112 to
  134 of the second copy), entered with both lists non-empty. \<open>bids\<close> and \<open>asks\<close> are
  the lists the references of lines 149 and 150 denote; every write through them is
  stored in the map as well. The result is the two lists, the book and the trade that
  \<^verbatim>\<open>push_back\<close> appends.
\<close>

definition MatchStep ::
  "Price \<Rightarrow> Price \<Rightarrow> OrderPointers \<Rightarrow> OrderPointers \<Rightarrow> OrderBook \<Rightarrow>
     error + (OrderPointers \<times> OrderPointers \<times> OrderBook \<times> Trade)" where
  "MatchStep bidPrice askPrice bids asks b =
     (let bid = snd (hd bids); ask = snd (hd asks);
          quantity = std_min (GetRemainingQuantity bid) (GetRemainingQuantity ask)
      in case Fill bid quantity of
           Inl e \<Rightarrow> Inl e
         | Inr bid' \<Rightarrow>
        (case Fill ask quantity of
           Inl e \<Rightarrow> Inl e
         | Inr ask' \<Rightarrow>
        (let bids' = (if isFilled bid' then tl bids else (fst (hd bids), bid') # tl bids);
             orders1 = (if isFilled bid' then (orders_map b)(GetOrderId bid' := None)
                        else orders_map b);
             asks' = (if isFilled ask' then tl asks else (fst (hd asks), ask') # tl asks);
             orders2 = (if isFilled ask' then orders1(GetOrderId ask' := None)
                        else orders1);
             b' = b\<lparr>bids_map := (if bids' = [] then map_erase (bids_map b) bidPrice
                               else map_put (bids_map b) bidPrice bids'),
                     asks_map := (if asks' = [] then map_erase (asks_map b) askPrice
                               else map_put (asks_map b) askPrice asks'),
                     orders_map := orders2\<rparr>
         in Inr (bids', asks', b',
                 \<lparr>bidTrade = \<lparr>orderId = GetOrderId bid', price = GetPrice bid',
                                quantity = quantity\<rparr>,
                  askTrade = \<lparr>orderId = GetOrderId ask', price = GetPrice ask',
                                quantity = quantity\<rparr>\<rparr>))))"

lemma std_min_cases: "std_min a b = a \<or> std_min a b = b"
  by (simp add: std_min_def)

lemma Fill_std_min_left:
  "Fill x (std_min (GetRemainingQuantity x) c) =
     Inr (x\<lparr>GetRemainingQuantity := GetRemainingQuantity x - std_min (GetRemainingQuantity x) c\<rparr>)"
  by (simp add: Fill_def std_min_def word_sless_alt)

lemma Fill_std_min_right:
  "Fill x (std_min c (GetRemainingQuantity x)) =
     Inr (x\<lparr>GetRemainingQuantity := GetRemainingQuantity x - std_min c (GetRemainingQuantity x)\<rparr>)"
  by (simp add: Fill_def std_min_def word_sless_alt)

lemma MatchStep_eq:
  "MatchStep bidPrice askPrice bids asks b =
     (let bid = snd (hd bids); ask = snd (hd asks);
          quantity = std_min (GetRemainingQuantity bid) (GetRemainingQuantity ask);
          bid' = bid\<lparr>GetRemainingQuantity := GetRemainingQuantity bid - quantity\<rparr>;
          ask' = ask\<lparr>GetRemainingQuantity := GetRemainingQuantity ask - quantity\<rparr>;
          bids' = (if isFilled bid' then tl bids else (fst (hd bids), bid') # tl bids);
          orders1 = (if isFilled bid' then (orders_map b)(GetOrderId bid' := None)
                     else orders_map b);
          asks' = (if isFilled ask' then tl asks else (fst (hd asks), ask') # tl asks);
          orders2 = (if isFilled ask' then orders1(GetOrderId ask' := None)
                     else orders1);
          b' = b\<lparr>bids_map := (if bids' = [] then map_erase (bids_map b) bidPrice
                            else map_put (bids_map b) bidPrice bids'),
                  asks_map := (if asks' = [] then map_erase (asks_map b) askPrice
                            else map_put (asks_map b) askPrice asks'),
                  orders_map := orders2\<rparr>
      in Inr (bids', asks', b',
              \<lparr>bidTrade = \<lparr>orderId = GetOrderId bid', price = GetPrice bid',
                             quantity = quantity\<rparr>,
               askTrade = \<lparr>orderId = GetOrderId ask', price = GetPrice ask',
                             quantity = quantity\<rparr>\<rparr>))"
  unfolding MatchStep_def Let_def Fill_std_min_left Fill_std_min_right by simp

lemma MatchStep_pops:
  assumes "MatchStep bidPrice askPrice bids asks b = Inr (bids', asks', b', t)"
    and "bids \<noteq> []" and "asks \<noteq> []"
  shows "length bids' + length asks' < length bids + length asks"
proof -
  let ?a = "GetRemainingQuantity (snd (hd bids))"
  let ?c = "GetRemainingQuantity (snd (hd asks))"
  have len: "length (tl bids) < length bids" "length (tl asks) < length asks"
    using assms(2,3) by simp_all
  from std_min_cases [of ?a ?c] show ?thesis
  proof
    assume "std_min ?a ?c = ?a"
    then have "bids' = tl bids" "length asks' \<le> length asks"
      using assms(1,3) by (auto simp: MatchStep_eq Let_def isFilled_def)
    then show ?thesis using len by simp
  next
    assume "std_min ?a ?c = ?c"
    then have "asks' = tl asks" "length bids' \<le> length bids"
      using assms(1,2) by (auto simp: MatchStep_eq Let_def isFilled_def)
    then show ?thesis using len by simp
  qed
qed

text \<open>
  The inner loop \<^verbatim>\<open>while(bids.size() && asks.size())\<close>. It ends because every run of
  its body pops the head of one of the two lists.
\<close>

function MatchLevels ::
  "Price \<Rightarrow> Price \<Rightarrow> OrderPointers \<Rightarrow> OrderPointers \<Rightarrow> OrderBook \<Rightarrow> Trades \<Rightarrow>
     error + (OrderPointers \<times> OrderPointers \<times> OrderBook \<times> Trades)" where
  "MatchLevels bidPrice askPrice bids asks b trades =
     (if bids \<noteq> [] \<and> asks \<noteq> [] then
        (case MatchStep bidPrice askPrice bids asks b of
           Inl e \<Rightarrow> Inl e
         | Inr (bids', asks', b', t) \<Rightarrow>
             MatchLevels bidPrice askPrice bids' asks' b' (trades @ [t]))
      else Inr (bids, asks, b, trades))"
  by pat_completeness auto
termination
  by (relation "measure (\<lambda>(bidPrice, askPrice, bids, asks, b, trades). length bids + length asks)")
     (auto dest: MatchStep_pops)

declare MatchLevels.simps [simp del]

text \<open>
  End-of-match disposal in \<^verbatim>\<open>src/main.cpp\<close> (lines 179 to 193). \<open>bids\<close> and \<open>asks\<close> are
  the outer references after the inner loop; the blocks bind the list of
  \<^verbatim>\<open>*bids_.begin()\<close> (of \<^verbatim>\<open>*asks_.begin()\<close>) again and take its front. When the outer
  list is not empty its level is still the first of its side, so the list bound again
  is the same list (lemma \<open>MatchLevels_pruned\<close>, through \<open>at_heads\<close>).
\<close>

definition dispose_bid :: "OrderPointers \<Rightarrow> OrderBook \<Rightarrow> OrderBook" where
  "dispose_bid bids b =
     (if bids \<noteq> [] then
        (let order = snd (hd (snd (hd (bids_map b))));
             b1 = b\<lparr>orders_map := (orders_map b)(GetOrderId order := None)\<rparr>
         in if GetOrderType order = FillAndKill then CancelOrder b1 (GetOrderId order)
            else b1)
      else b)"

definition dispose_ask :: "OrderPointers \<Rightarrow> OrderBook \<Rightarrow> OrderBook" where
  "dispose_ask asks b =
     (if asks \<noteq> [] then
        (let order = snd (hd (snd (hd (asks_map b))));
             b1 = b\<lparr>orders_map := (orders_map b)(GetOrderId order := None)\<rparr>
         in CancelOrder b1 (GetOrderId order))
      else b)"

text \<open>
  The outer loop \<^verbatim>\<open>while(true)\<close> of \<^verbatim>\<open>MatchOrders\<close>. Nothing in the code bounds it, so
  it is a partial function: \<open>None\<close> is a run that never returns, \<open>Some (Inl e)\<close> one
  that \<^verbatim>\<open>Fill\<close> ends by throwing, \<open>Some (Inr (b, trades))\<close> a return.
\<close>

partial_function (option) MatchLoop ::
  "OrderBook \<Rightarrow> Trades \<Rightarrow> (error + OrderBook \<times> Trades) option" where
  "MatchLoop b trades =
     (if asks_map b = [] \<or> bids_map b = [] then Some (Inr (b, trades))
      else if fst (hd (bids_map b)) <s fst (hd (asks_map b)) then Some (Inr (b, trades))
      else
        (case MatchLevels (fst (hd (bids_map b))) (fst (hd (asks_map b)))
                (snd (hd (bids_map b))) (snd (hd (asks_map b))) b trades of
           Inl e \<Rightarrow> Some (Inl e)
         | Inr (bids, asks, b', trades') \<Rightarrow>
             MatchLoop (dispose_ask asks (dispose_bid bids b')) trades'))"

declare MatchLoop.simps [code]

definition MatchOrders :: "OrderBook \<Rightarrow> (error + OrderBook \<times> Trades) option" where
  "MatchOrders b = MatchLoop b []"

subsection \<open>\<^verbatim>\<open>AddOrder\<close> and \<^verbatim>\<open>ModifyOrder\<close>\<close>

text \<open>\<^verbatim>\<open>auto& orders = m[p]; orders.push_back(order);\<close> with the new node \<open>n\<close>.\<close>

definition level_push_back ::
  "(Price \<Rightarrow> Price \<Rightarrow> bool) \<Rightarrow> Levels \<Rightarrow> Price \<Rightarrow> nat \<times> Order \<Rightarrow> Levels" where
  "level_push_back cmp m p n =
     (let m' = map_subscript cmp m p in map_put m' p (map_get m' p @ [n]))"

text \<open>The book of \<^verbatim>\<open>AddOrder\<close> at its last line, before \<^verbatim>\<open>MatchOrders\<close> runs.\<close>

definition insert_order :: "OrderBook \<Rightarrow> Order \<Rightarrow> OrderBook" where
  "insert_order b x =
     (let iterator = allocated b;
          b1 = (if GetSide x = Buy
                then b\<lparr>bids_map := level_push_back std_greater (bids_map b) (GetPrice x) (iterator, x)\<rparr>
                else b\<lparr>asks_map := level_push_back std_less (asks_map b) (GetPrice x) (iterator, x)\<rparr>)
      in b1\<lparr>orders_map := umap_insert (orders_map b1) (GetOrderId x)
                            \<lparr>order = x, location = iterator\<rparr>,
             allocated := Suc iterator\<rparr>)"

definition AddOrder :: "OrderBook \<Rightarrow> Order \<Rightarrow> (error + OrderBook \<times> Trades) option" where
  "AddOrder b x =
     (if orders_map b (GetOrderId x) \<noteq> None then Some (Inr (b, []))
      else if \<not> CanMatch b (GetSide x) (GetPrice x) \<and> GetOrderType x = FillAndKill
      then Some (Inr (b, []))
      else MatchOrders (insert_order b x))"

text \<open>
  \<^verbatim>\<open>ModifyOrder\<close> drops what \<^verbatim>\<open>AddOrder\<close> returns and returns the trades of a second
  run of \<^verbatim>\<open>MatchOrders\<close>.
\<close>

definition ModifyOrder :: "OrderBook \<Rightarrow> OrderModify \<Rightarrow> (error + OrderBook \<times> Trades) option" where
  "ModifyOrder b m =
     (case orders_map b (GetModifyOrderId m) of
        None \<Rightarrow> Some (Inr (b, []))
      | Some existing \<Rightarrow>
          (case AddOrder (CancelOrder b (GetModifyOrderId m))
                  (ToOrderPointer m (GetOrderType (order existing))) of
             None \<Rightarrow> None
           | Some (Inl e) \<Rightarrow> Some (Inl e)
           | Some (Inr (b', dropped)) \<Rightarrow> MatchOrders b'))"

subsection \<open>The second copy of the engine\<close>

text \<open>
  In the second copy \<^verbatim>\<open>Order\<close>, \<^verbatim>\<open>CanMatch\<close>, \<^verbatim>\<open>CancelOrder\<close> and the body of
  \<^verbatim>\<open>AddOrder\<close> are the text of \<^verbatim>\<open>src/main.cpp\<close> (but for \<^verbatim>\<open>auto&\<close> in place of
  \<^verbatim>\<open>const auto&\<close> in three bindings); the definitions above stand for both.
  \<^verbatim>\<open>MatchOrders\<close> differs in two places.

  In the inner loop, lines 114 and 115 are
  \<^verbatim>\<open>auto& quantity = std::min(bid->GetRemainingQuantity(), ask->GetRemainingQuantity());\<close>
  where \<^verbatim>\<open>src/main.cpp\<close> has \<^verbatim>\<open>Quantity quantity = ...\<close>. \<^verbatim>\<open>std::min\<close> returns a reference
  to one of its arguments, here two temporaries that die at the end of the declaration,
  so every later use of \<^verbatim>\<open>quantity\<close> (the two calls of \<^verbatim>\<open>Fill\<close>, the two legs of the
  trade) reads a dead object. \<open>read_dead v\<close> is what such a read gives where the
  temporary held \<open>v\<close>: no value. A build of the copy may find \<open>v\<close> still there, or
  anything else, and then for instance throw from \<^verbatim>\<open>Fill\<close>.
\<close>

definition read_dead :: "Quantity \<Rightarrow> Quantity option" where
  "read_dead v = None"

definition MatchStep_2 ::
  "Price \<Rightarrow> Price \<Rightarrow> OrderPointers \<Rightarrow> OrderPointers \<Rightarrow> OrderBook \<Rightarrow>
     error + (OrderPointers \<times> OrderPointers \<times> OrderBook \<times> Trade)" where
  "MatchStep_2 bidPrice askPrice bids asks b =
     (let bid = snd (hd bids); ask = snd (hd asks)
      in case read_dead (std_min (GetRemainingQuantity bid) (GetRemainingQuantity ask)) of
           None \<Rightarrow> Inl DanglingRead
         | Some v \<Rightarrow>
        (let quantity = v in
         case Fill bid quantity of
           Inl e \<Rightarrow> Inl e
         | Inr bid' \<Rightarrow>
        (case Fill ask quantity of
           Inl e \<Rightarrow> Inl e
         | Inr ask' \<Rightarrow>
        (let bids' = (if isFilled bid' then tl bids else (fst (hd bids), bid') # tl bids);
             orders1 = (if isFilled bid' then (orders_map b)(GetOrderId bid' := None)
                        else orders_map b);
             asks' = (if isFilled ask' then tl asks else (fst (hd asks), ask') # tl asks);
             orders2 = (if isFilled ask' then orders1(GetOrderId ask' := None)
                        else orders1);
             b' = b\<lparr>bids_map := (if bids' = [] then map_erase (bids_map b) bidPrice
                               else map_put (bids_map b) bidPrice bids'),
                     asks_map := (if asks' = [] then map_erase (asks_map b) askPrice
                               else map_put (asks_map b) askPrice asks'),
                     orders_map := orders2\<rparr>
         in Inr (bids', asks', b',
                 \<lparr>bidTrade = \<lparr>orderId = GetOrderId bid', price = GetPrice bid',
                                quantity = quantity\<rparr>,
                  askTrade = \<lparr>orderId = GetOrderId ask', price = GetPrice ask',
                                quantity = quantity\<rparr>\<rparr>)))))"

lemma MatchStep_2_dangling: "MatchStep_2 bidPrice askPrice bids asks b = Inl DanglingRead"
  by (simp add: MatchStep_2_def read_dead_def)

function MatchLevels_2 ::
  "Price \<Rightarrow> Price \<Rightarrow> OrderPointers \<Rightarrow> OrderPointers \<Rightarrow> OrderBook \<Rightarrow> Trades \<Rightarrow>
     error + (OrderPointers \<times> OrderPointers \<times> OrderBook \<times> Trades)" where
  "MatchLevels_2 bidPrice askPrice bids asks b trades =
     (if bids \<noteq> [] \<and> asks \<noteq> [] then
        (case MatchStep_2 bidPrice askPrice bids asks b of
           Inl e \<Rightarrow> Inl e
         | Inr (bids', asks', b', t) \<Rightarrow>
             MatchLevels_2 bidPrice askPrice bids' asks' b' (trades @ [t]))
      else Inr (bids, asks, b, trades))"
  by pat_completeness auto
termination
  by (relation "measure (\<lambda>(bidPrice, askPrice, bids, asks, b, trades). length bids + length asks)")
     (auto simp: MatchStep_2_dangling)

declare MatchLevels_2.simps [simp del]

text \<open>
  After the inner loop, the end-of-match disposal of the second copy (lines 136 to 148)
  erases the front order from the index and does nothing else.
\<close>

definition dispose_bid_2 :: "OrderPointers \<Rightarrow> OrderBook \<Rightarrow> OrderBook" where
  "dispose_bid_2 bids b =
     (if bids \<noteq> [] then
        (let order = snd (hd (snd (hd (bids_map b))))
         in b\<lparr>orders_map := (orders_map b)(GetOrderId order := None)\<rparr>)
      else b)"

definition dispose_ask_2 :: "OrderPointers \<Rightarrow> OrderBook \<Rightarrow> OrderBook" where
  "dispose_ask_2 asks b =
     (if asks \<noteq> [] then
        (let order = snd (hd (snd (hd (asks_map b))))
         in b\<lparr>orders_map := (orders_map b)(GetOrderId order := None)\<rparr>)
      else b)"

partial_function (option) MatchLoop_2 ::
  "OrderBook \<Rightarrow> Trades \<Rightarrow> (error + OrderBook \<times> Trades) option" where
  "MatchLoop_2 b trades =
     (if asks_map b = [] \<or> bids_map b = [] then Some (Inr (b, trades))
      else if fst (hd (bids_map b)) <s fst (hd (asks_map b)) then Some (Inr (b, trades))
      else
        (case MatchLevels_2 (fst (hd (bids_map b))) (fst (hd (asks_map b)))
                (snd (hd (bids_map b))) (snd (hd (asks_map b))) b trades of
           Inl e \<Rightarrow> Some (Inl e)
         | Inr (bids, asks, b', trades') \<Rightarrow>
             MatchLoop_2 (dispose_ask_2 asks (dispose_bid_2 bids b')) trades'))"

declare MatchLoop_2.simps [code]

definition MatchOrders_2 :: "OrderBook \<Rightarrow> (error + OrderBook \<times> Trades) option" where
  "MatchOrders_2 b = MatchLoop_2 b []"

definition AddOrder_2 :: "OrderBook \<Rightarrow> Order \<Rightarrow> (error + OrderBook \<times> Trades) option" where
  "AddOrder_2 b x =
     (if orders_map b (GetOrderId x) \<noteq> None then Some (Inr (b, []))
      else if \<not> CanMatch b (GetSide x) (GetPrice x) \<and> GetOrderType x = FillAndKill
      then Some (Inr (b, []))
      else MatchOrders_2 (insert_order b x))"

subsection \<open>Sequences of calls\<close>

text \<open>
  A caller of the engine constructs an order and submits it, cancels an identifier, or
  modifies one. \<open>run\<close> makes the calls of a list one after the other, starting from a
  book, and returns the last book with what each call returned; a call that throws or
  never returns ends the run.
\<close>

datatype Call =
  Submit OrderId OrderType Quantity Price Side
| Cancel OrderId
| Modify OrderId Side Quantity Price

fun call :: "OrderBook \<Rightarrow> Call \<Rightarrow> (error + OrderBook \<times> Trades) option" where
  "call b (Submit k t q p s) = AddOrder b (Order_new k t q p s)"
| "call b (Cancel k) = Some (Inr (CancelOrder b k, []))"
| "call b (Modify k s q p) =
     ModifyOrder b \<lparr>GetModifyOrderId = k, GetOrderSide = s, GetOrderQuantity = q,
                    GetOrderPrice = p\<rparr>"

fun run :: "OrderBook \<Rightarrow> Call list \<Rightarrow> (OrderBook \<times> Trades list) option" where
  "run b [] = Some (b, [])"
| "run b (c # cs) =
     (case call b c of
        Some (Inr (b', trades)) \<Rightarrow>
          (case run b' cs of None \<Rightarrow> None | Some (b'', rest) \<Rightarrow> Some (b'', trades # rest))
      | _ \<Rightarrow> None)"

definition reachable :: "OrderBook \<Rightarrow> bool" where
  "reachable b = (\<exists>cs rs. run empty_book cs = Some (b, rs))"

text \<open>The orders of the queues of one side, and of the whole book.\<close>

definition level_orders :: "Levels \<Rightarrow> Order set" where
  "level_orders m = {x. \<exists>p q l. (p, q) \<in> set m \<and> (l, x) \<in> set q}"

definition resting :: "OrderBook \<Rightarrow> Order set" where
  "resting b = level_orders (bids_map b) \<union> level_orders (asks_map b)"

subsection \<open>Price levels without empty queues\<close>

text \<open>
  Both engines erase a level as soon as its queue is empty. \<open>pruned\<close> says that no level
  of the book has an empty queue, \<open>level_count\<close> is the number of price levels.
\<close>

definition nonempty_levels :: "Levels \<Rightarrow> bool" where
  "nonempty_levels m = list_all (\<lambda>(p, q). q \<noteq> []) m"

definition pruned :: "OrderBook \<Rightarrow> bool" where
  "pruned b = (nonempty_levels (bids_map b) \<and> nonempty_levels (asks_map b))"

definition level_count :: "OrderBook \<Rightarrow> nat" where
  "level_count b = length (bids_map b) + length (asks_map b)"

text \<open>The book between two runs of the loop body, with the lists the references denote.\<close>

definition at_heads :: "Price \<Rightarrow> Price \<Rightarrow> OrderPointers \<Rightarrow> OrderPointers \<Rightarrow> OrderBook \<Rightarrow> bool" where
  "at_heads bidPrice askPrice bids asks b =
     ((bids \<noteq> [] \<longrightarrow> bids_map b \<noteq> [] \<and> hd (bids_map b) = (bidPrice, bids))
      \<and> (asks \<noteq> [] \<longrightarrow> asks_map b \<noteq> [] \<and> hd (asks_map b) = (askPrice, asks)))"

subsection \<open>Price levels in the order of the comparators\<close>

text \<open>
  \<open>ordered\<close> says that the levels of each side come in the order of its comparator:
  bids by falling price, asks by rising price, no price twice.
\<close>

definition ordered :: "OrderBook \<Rightarrow> bool" where
  "ordered b = (sorted_wrt std_greater (map fst (bids_map b))
                \<and> sorted_wrt std_less (map fst (asks_map b)))"

subsection \<open>Queues in arrival order\<close>

text \<open>
  The handle of a node is the number of nodes created before it, so a smaller handle
  is an earlier arrival. \<open>fifo\<close> says that in every queue the handles rise from the head
  to the tail and are below \<open>allocated\<close>.
\<close>

definition fifo_queue :: "nat \<Rightarrow> OrderPointers \<Rightarrow> bool" where
  "fifo_queue n q = (sorted_wrt (<) (map fst q) \<and> list_all (\<lambda>l. l < n) (map fst q))"

definition fifo_levels :: "nat \<Rightarrow> Levels \<Rightarrow> bool" where
  "fifo_levels n m = list_all (\<lambda>(p, q). fifo_queue n q) m"

definition fifo :: "OrderBook \<Rightarrow> bool" where
  "fifo b = (fifo_levels (allocated b) (bids_map b) \<and> fifo_levels (allocated b) (asks_map b))"

subsection \<open>Quantities within bounds\<close>

text \<open>
  \<open>within_initial\<close> is the bound \<open>0 \<le> remaining \<le> initial\<close> of one order, \<open>sound\<close> the bound
  for every order in a queue of the book. \<open>nonneg_quantity\<close> holds of a call that
  submits no negative quantity.
\<close>

definition within_initial :: "Order \<Rightarrow> bool" where
  "within_initial x =
     (0 \<le>s GetRemainingQuantity x \<and> GetRemainingQuantity x \<le>s GetInitialQuantity x)"

definition sound_queue :: "OrderPointers \<Rightarrow> bool" where
  "sound_queue q = list_all (\<lambda>n. within_initial (snd n)) q"

definition sound_levels :: "Levels \<Rightarrow> bool" where
  "sound_levels m = list_all (\<lambda>(p, q). sound_queue q) m"

definition sound :: "OrderBook \<Rightarrow> bool" where
  "sound b = (sound_levels (bids_map b) \<and> sound_levels (asks_map b))"

fun nonneg_quantity :: "Call \<Rightarrow> bool" where
  "nonneg_quantity (Submit k t q p s) = (0 \<le>s q)"
| "nonneg_quantity (Cancel k) = True"
| "nonneg_quantity (Modify k s q p) = (0 \<le>s q)"

subsection \<open>An order from one book to the next\<close>

text \<open>
  \<open>descends n' n\<close>: the node \<open>n'\<close> is the node \<open>n\<close> (same handle, same order but for the
  remaining quantity) with a remaining quantity that is not greater. \<open>book_from b' b\<close>:
  every node of a queue of \<open>b'\<close> descends from a node of the queue of the same side and
  price in \<open>b\<close>, or was created after \<open>b\<close>.
\<close>

definition descends :: "nat \<times> Order \<Rightarrow> nat \<times> Order \<Rightarrow> bool" where
  "descends n' n =
     (fst n' = fst n
      \<and> snd n' = (snd n)\<lparr>GetRemainingQuantity := GetRemainingQuantity (snd n')\<rparr>
      \<and> GetRemainingQuantity (snd n') \<le>s GetRemainingQuantity (snd n))"

definition queue_from :: "nat \<Rightarrow> OrderPointers \<Rightarrow> OrderPointers \<Rightarrow> bool" where
  "queue_from a q' q = list_all (\<lambda>n'. list_ex (descends n') q \<or> a \<le> fst n') q'"

definition levels_from :: "nat \<Rightarrow> Levels \<Rightarrow> Levels \<Rightarrow> bool" where
  "levels_from a m' m = list_all (\<lambda>(p, q'). queue_from a q' (map_get m p)) m'"

definition book_from :: "OrderBook \<Rightarrow> OrderBook \<Rightarrow> bool" where
  "book_from b' b =
     (allocated b \<le> allocated b'
      \<and> levels_from (allocated b) (bids_map b') (bids_map b)
      \<and> levels_from (allocated b) (asks_map b') (asks_map b))"

text \<open>
  \<open>aged_step c bidPrice askPrice bids asks b\<close>: between two runs of the loop body, the
  book and the two lists hold orders within their bounds that come from the book \<open>c\<close>.
\<close>

definition aged_step ::
  "OrderBook \<Rightarrow> Price \<Rightarrow> Price \<Rightarrow> OrderPointers \<Rightarrow> OrderPointers \<Rightarrow> OrderBook \<Rightarrow> bool" where
  "aged_step c bidPrice askPrice bids asks b =
     (sound b \<and> sound_queue bids \<and> sound_queue asks \<and> book_from b c
      \<and> queue_from (allocated c) bids (map_get (bids_map c) bidPrice)
      \<and> queue_from (allocated c) asks (map_get (asks_map c) askPrice))"

subsection \<open>Example books\<close>

text \<open>
  \<open>book_one_ask\<close> holds one resting sell order (identifier 1, quantity 5, price 100),
  \<open>book_one_bid\<close> one resting buy order with the same numbers, and \<open>book_apart\<close> a sell
  order at 100 and a buy order at 99. Each is the book after the calls shown by the
  lemmas \<open>run_book_one_ask\<close>, \<open>run_book_one_bid\<close> and \<open>run_book_apart\<close>.
\<close>

definition book_one_ask :: OrderBook where
  "book_one_ask =
     \<lparr>bids_map = [],
      asks_map = [(100, [(0, Order_new 1 GoodTillCancel 5 100 Sell)])],
      orders_map = [1 \<mapsto> \<lparr>order = Order_new 1 GoodTillCancel 5 100 Sell, location = 0\<rparr>],
      allocated = 1\<rparr>"

definition book_one_bid :: OrderBook where
  "book_one_bid =
     \<lparr>bids_map = [(100, [(0, Order_new 1 GoodTillCancel 5 100 Buy)])],
      asks_map = [],
      orders_map = [1 \<mapsto> \<lparr>order = Order_new 1 GoodTillCancel 5 100 Buy, location = 0\<rparr>],
      allocated = 1\<rparr>"

definition book_apart :: OrderBook where
  "book_apart =
     \<lparr>bids_map = [(99, [(1, Order_new 2 GoodTillCancel 5 99 Buy)])],
      asks_map = [(100, [(0, Order_new 1 GoodTillCancel 5 100 Sell)])],
      orders_map = [1 \<mapsto> \<lparr>order = Order_new 1 GoodTillCancel 5 100 Sell, location = 0\<rparr>,
                    2 \<mapsto> \<lparr>order = Order_new 2 GoodTillCancel 5 99 Buy, location = 1\<rparr>],
      allocated = 2\<rparr>"

text \<open>
  \<open>book_scenario_B\<close> is the book after a sell order (identifier 1, quantity 5, price
  100) and a buy order (identifier 2, quantity 10, price 101), both GoodTillCancel;
  \<open>book_negative\<close> the book after one buy order of quantity -1.
\<close>

definition book_scenario_B :: OrderBook where
  "book_scenario_B =
     \<lparr>bids_map = [(101, [(1, \<lparr>GetOrderId = 2, GetOrderType = GoodTillCancel,
                              GetInitialQuantity = 10, GetRemainingQuantity = 5,
                              GetPrice = 101, GetSide = Buy\<rparr>)])],
      asks_map = [], orders_map = Map.empty, allocated = 2\<rparr>"

definition book_negative :: OrderBook where
  "book_negative =
     \<lparr>bids_map = [(100, [(0, Order_new 1 GoodTillCancel (- 1) 100 Buy)])],
      asks_map = [],
      orders_map = [1 \<mapsto> \<lparr>order = Order_new 1 GoodTillCancel (- 1) 100 Buy, location = 0\<rparr>],
      allocated = 1\<rparr>"

text \<open>
  \<open>book_refilled\<close> is the book after a buy order of quantity 5 and a sell order of
  quantity -3 at the same price.
\<close>

definition book_refilled :: OrderBook where
  "book_refilled =
     \<lparr>bids_map = [(100, [(0, \<lparr>GetOrderId = 1, GetOrderType = GoodTillCancel,
                              GetInitialQuantity = 5, GetRemainingQuantity = 8,
                              GetPrice = 100, GetSide = Buy\<rparr>)])],
      asks_map = [], orders_map = Map.empty, allocated = 2\<rparr>"

text \<open>
  \<open>book_two_asks\<close> holds two sell orders at the price 100, order 1 of quantity 5 before
  order 3 of quantity 7; \<open>book_two_asks_hit\<close> is that book after a buy order 2 of
  quantity 4 at 100.
\<close>

definition book_two_asks :: OrderBook where
  "book_two_asks =
     \<lparr>bids_map = [],
      asks_map = [(100, [(0, Order_new 1 GoodTillCancel 5 100 Sell),
                         (1, Order_new 3 GoodTillCancel 7 100 Sell)])],
      orders_map = [1 \<mapsto> \<lparr>order = Order_new 1 GoodTillCancel 5 100 Sell, location = 0\<rparr>,
                    3 \<mapsto> \<lparr>order = Order_new 3 GoodTillCancel 7 100 Sell, location = 1\<rparr>],
      allocated = 2\<rparr>"

definition book_two_asks_hit :: OrderBook where
  "book_two_asks_hit =
     \<lparr>bids_map = [],
      asks_map = [(100, [(0, \<lparr>GetOrderId = 1, GetOrderType = GoodTillCancel,
                               GetInitialQuantity = 5, GetRemainingQuantity = 1,
                               GetPrice = 100, GetSide = Sell\<rparr>),
                         (1, Order_new 3 GoodTillCancel 7 100 Sell)])],
      orders_map = [3 \<mapsto> \<lparr>order = Order_new 3 GoodTillCancel 7 100 Sell, location = 1\<rparr>],
      allocated = 3\<rparr>"

section \<open>Properties\<close>

lemmas engine_defs =
  AddOrder_def ModifyOrder_def CancelOrder_def CanMatch_def MatchOrders_def MatchLoop.simps
  MatchLevels.simps MatchStep_def Fill_def std_min_def isFilled_def dispose_bid_def
  dispose_ask_def insert_order_def level_push_back_def map_put_def map_get_def map_erase_def
  list_erase_def umap_insert_def std_greater_def std_less_def ToOrderPointer_def Order_new_def
  empty_book_def Let_def word_sless_alt word_sle_eq

lemmas example_defs =
  book_one_ask_def book_one_bid_def book_apart_def book_scenario_B_def book_negative_def
  book_refilled_def

lemma run_book_one_ask:
  "run empty_book [Submit 1 GoodTillCancel 5 100 Sell] = Some (book_one_ask, [[]])"
  by (simp add: engine_defs example_defs)

lemma run_book_one_bid:
  "run empty_book [Submit 1 GoodTillCancel 5 100 Buy] = Some (book_one_bid, [[]])"
  by (simp add: engine_defs example_defs)

lemma run_book_apart:
  "run empty_book [Submit 1 GoodTillCancel 5 100 Sell, Submit 2 GoodTillCancel 5 99 Buy] =
     Some (book_apart, [[], []])"
  by (simp add: engine_defs example_defs)

subsection \<open>The matching loop never overfills\<close>

lemma sint_std_min: "sint (std_min a c) = min (sint a) (sint c)"
  by (simp add: std_min_def word_sless_alt min_def)

lemma MatchStep_no_error: "MatchStep bidPrice askPrice bids asks b \<noteq> Inl e"
  by (simp add: MatchStep_eq Let_def)

lemma MatchLevels_no_error: "MatchLevels bidPrice askPrice bids asks b trades \<noteq> Inl e"
proof (induction bidPrice askPrice bids asks b trades rule: MatchLevels.induct)
  case (1 bidPrice askPrice bids asks b trades)
  show ?case
  proof (cases "bids \<noteq> [] \<and> asks \<noteq> []")
    case False
    then show ?thesis by (subst MatchLevels.simps) auto
  next
    case True
    obtain bids' asks' b' t where
      step: "MatchStep bidPrice askPrice bids asks b = Inr (bids', asks', b', t)"
      using MatchStep_no_error [of bidPrice askPrice bids asks b]
      by (cases "MatchStep bidPrice askPrice bids asks b") auto
    from "1.IH" [OF True step refl refl refl] True step show ?thesis
      by (subst MatchLevels.simps) simp
  qed
qed

lemma MatchLoop_no_error:
  assumes "MatchLoop b trades = Some r"
  shows "r \<noteq> Inl e"
proof -
  have "\<forall>e. r \<noteq> Inl e"
    by (rule MatchLoop.raw_induct [where P = "\<lambda>b trades r. \<forall>e. r \<noteq> Inl e", OF _ assms])
       (auto simp: MatchLevels_no_error split: if_splits sum.splits)
  then show ?thesis by simp
qed

lemma AddOrder_no_error: "AddOrder b x \<noteq> Some (Inl e)"
  using MatchLoop_no_error [of "insert_order b x" "[]" "Inl e" e]
  by (auto simp: AddOrder_def MatchOrders_def)

lemma ModifyOrder_no_error: "ModifyOrder b m \<noteq> Some (Inl e)"
proof
  assume a: "ModifyOrder b m = Some (Inl e)"
  then obtain b' where "MatchOrders b' = Some (Inl e)"
    by (auto simp: ModifyOrder_def AddOrder_no_error split: option.splits sum.splits)
  then show False
    using MatchLoop_no_error [of b' "[]" "Inl e" e] by (simp add: MatchOrders_def)
qed

text \<open>
  Claim C9. \<^verbatim>\<open>Order::Fill\<close> throws exactly when the quantity asked for is greater than
  the remaining quantity. The matching loop fills both head orders with the smaller of
  their remaining quantities, so its two calls of \<^verbatim>\<open>Fill\<close> succeed, and no run of the
  loop body, the inner loop, \<^verbatim>\<open>MatchOrders\<close>, \<^verbatim>\<open>AddOrder\<close> or \<^verbatim>\<open>ModifyOrder\<close> ends
  with the error.
\<close>

theorem Fill_overfill_unreachable:
  "((\<exists>e. Fill x q = Inl e) \<longleftrightarrow> GetRemainingQuantity x <s q)
   \<and> Fill bid (std_min (GetRemainingQuantity bid) (GetRemainingQuantity ask)) \<noteq> Inl e
   \<and> Fill ask (std_min (GetRemainingQuantity bid) (GetRemainingQuantity ask)) \<noteq> Inl e
   \<and> MatchStep bidPrice askPrice bids asks b \<noteq> Inl e
   \<and> MatchLevels bidPrice askPrice bids asks b trades \<noteq> Inl e
   \<and> MatchOrders b \<noteq> Some (Inl e)
   \<and> AddOrder b y \<noteq> Some (Inl e)
   \<and> ModifyOrder b m \<noteq> Some (Inl e)"
proof -
  have "(\<exists>e. Fill x q = Inl e) \<longleftrightarrow> GetRemainingQuantity x <s q"
    by (simp add: Fill_def)
  moreover have "MatchOrders b \<noteq> Some (Inl e)"
    using MatchLoop_no_error [of b "[]" "Inl e" e] by (auto simp: MatchOrders_def)
  ultimately show ?thesis
    by (simp add: Fill_std_min_left Fill_std_min_right MatchStep_no_error
        MatchLevels_no_error AddOrder_no_error ModifyOrder_no_error)
qed

subsection \<open>Rejection of a FillAndKill order that cannot match\<close>

text \<open>
  Claim C4. A FillAndKill order whose price does not cross the best price of the other
  side, or that meets an empty other side, makes \<^verbatim>\<open>AddOrder\<close> return no trade and
  leave the book as it was: queues, price levels and index are unchanged. The best
  price of a side is the key of its first level (lemma \<open>head_is_best\<close> below).
\<close>

theorem AddOrder_FillAndKill_no_cross:
  assumes "GetOrderType x = FillAndKill"
    and "GetSide x = Buy \<longrightarrow> asks_map b = [] \<or> GetPrice x <s fst (hd (asks_map b))"
    and "GetSide x = Sell \<longrightarrow> bids_map b = [] \<or> fst (hd (bids_map b)) <s GetPrice x"
  shows "AddOrder b x = Some (Inr (b, []))"
proof -
  have "\<not> CanMatch b (GetSide x) (GetPrice x)"
  proof (cases "GetSide x")
    case Buy
    with assms(2) show ?thesis
      by (auto simp: CanMatch_def word_sless_alt word_sle_eq split: list.splits)
  next
    case Sell
    with assms(3) show ?thesis
      by (auto simp: CanMatch_def word_sless_alt word_sle_eq split: list.splits)
  qed
  with assms(1) show ?thesis by (simp add: AddOrder_def)
qed

theorem AddOrder_FillAndKill_no_cross_witness:
  "AddOrder book_one_ask (Order_new 2 FillAndKill 10 99 Buy) = Some (Inr (book_one_ask, []))
   \<and> AddOrder empty_book (Order_new 7 FillAndKill 3 50 Sell) = Some (Inr (empty_book, []))"
proof
  show "AddOrder book_one_ask (Order_new 2 FillAndKill 10 99 Buy) =
          Some (Inr (book_one_ask, []))"
    by (rule AddOrder_FillAndKill_no_cross) (simp_all add: Order_new_def book_one_ask_def)
  show "AddOrder empty_book (Order_new 7 FillAndKill 3 50 Sell) = Some (Inr (empty_book, []))"
    by (rule AddOrder_FillAndKill_no_cross) (simp_all add: Order_new_def empty_book_def)
qed

subsection \<open>Orders of quantity zero or less\<close>

text \<open>
  Claim C10. \<^verbatim>\<open>AddOrder\<close> does not look at the sign of the quantity. A GoodTillCancel
  buy order of quantity 0 at the price of the resting sell order is matched with it and
  the call returns a trade of quantity 0; a GoodTillCancel order of quantity -1 with a
  fresh identifier is put in its queue and in the index.
\<close>

theorem AddOrder_zero_quantity_trade:
  "AddOrder book_one_ask (Order_new 2 GoodTillCancel 0 100 Buy) =
     Some (Inr (\<lparr>bids_map = [],
                 asks_map = [(100, [(0, Order_new 1 GoodTillCancel 5 100 Sell)])],
                 orders_map = Map.empty, allocated = 2\<rparr>,
                [\<lparr>bidTrade = \<lparr>orderId = 2, price = 100, quantity = 0\<rparr>,
                  askTrade = \<lparr>orderId = 1, price = 100, quantity = 0\<rparr>\<rparr>]))
   \<and> AddOrder empty_book (Order_new 1 GoodTillCancel (- 1) 100 Buy) =
     Some (Inr (\<lparr>bids_map = [(100, [(0, Order_new 1 GoodTillCancel (- 1) 100 Buy)])],
                 asks_map = [],
                 orders_map = [1 \<mapsto> \<lparr>order = Order_new 1 GoodTillCancel (- 1) 100 Buy,
                                      location = 0\<rparr>],
                 allocated = 1\<rparr>, []))"
  by (simp add: engine_defs example_defs)

subsection \<open>What one run of the loop body does\<close>

lemma MatchLevels_trades:
  "MatchLevels bidPrice askPrice bids asks b trades = Inr (bids', asks', b', trades') \<Longrightarrow>
     \<exists>more. trades' = trades @ more"
proof (induction bidPrice askPrice bids asks b trades rule: MatchLevels.induct)
  case (1 bidPrice askPrice bids asks b trades)
  show ?case
  proof (cases "bids \<noteq> [] \<and> asks \<noteq> []")
    case False
    with "1.prems" show ?thesis by (subst (asm) MatchLevels.simps) auto
  next
    case True
    obtain bids1 asks1 b1 t where
      step: "MatchStep bidPrice askPrice bids asks b = Inr (bids1, asks1, b1, t)"
      using MatchStep_no_error [of bidPrice askPrice bids asks b]
      by (cases "MatchStep bidPrice askPrice bids asks b") auto
    have "MatchLevels bidPrice askPrice bids1 asks1 b1 (trades @ [t]) =
            Inr (bids', asks', b', trades')"
      using "1.prems" True step by (subst (asm) MatchLevels.simps) simp
    from "1.IH" [OF True step refl refl refl this] show ?thesis by auto
  qed
qed

lemma MatchLoop_trades:
  assumes "MatchLoop b trades = Some r"
  shows "\<forall>b' trades'. r = Inr (b', trades') \<longrightarrow> (\<exists>more. trades' = trades @ more)"
  by (rule MatchLoop.raw_induct
        [where P = "\<lambda>b trades r. \<forall>b' trades'. r = Inr (b', trades') \<longrightarrow>
                       (\<exists>more. trades' = trades @ more)", OF _ assms])
     (fastforce split: if_splits sum.splits dest!: MatchLevels_trades)

subsection \<open>The order left at the head after a match\<close>

text \<open>
  Claim C1, on the code. A buy order of quantity 10 meets the resting sell order of
  quantity 5; a sell order of quantity 10 meets the resting buy order of quantity 5.
  After the match the incoming order is the head of its level with 5 remaining. Both
  when it is GoodTillCancel and when it is FillAndKill, \<^verbatim>\<open>AddOrder\<close> returns a book
  where the order is still in its queue and the index has no entry for it: the block of
  lines 179 to 193 erases the entry first, so the \<^verbatim>\<open>CancelOrder\<close> it then calls returns
  at its first line.
\<close>

theorem end_of_match_disposal_on_code:
  "AddOrder book_one_ask (Order_new 2 GoodTillCancel 10 101 Buy) =
     Some (Inr (\<lparr>bids_map = [(101, [(1, \<lparr>GetOrderId = 2, GetOrderType = GoodTillCancel,
                                      GetInitialQuantity = 10, GetRemainingQuantity = 5,
                                      GetPrice = 101, GetSide = Buy\<rparr>)])],
                 asks_map = [], orders_map = Map.empty, allocated = 2\<rparr>,
                [\<lparr>bidTrade = \<lparr>orderId = 2, price = 101, quantity = 5\<rparr>,
                  askTrade = \<lparr>orderId = 1, price = 100, quantity = 5\<rparr>\<rparr>]))
   \<and> AddOrder book_one_ask (Order_new 2 FillAndKill 10 101 Buy) =
     Some (Inr (\<lparr>bids_map = [(101, [(1, \<lparr>GetOrderId = 2, GetOrderType = FillAndKill,
                                      GetInitialQuantity = 10, GetRemainingQuantity = 5,
                                      GetPrice = 101, GetSide = Buy\<rparr>)])],
                 asks_map = [], orders_map = Map.empty, allocated = 2\<rparr>,
                [\<lparr>bidTrade = \<lparr>orderId = 2, price = 101, quantity = 5\<rparr>,
                  askTrade = \<lparr>orderId = 1, price = 100, quantity = 5\<rparr>\<rparr>]))
   \<and> AddOrder book_one_bid (Order_new 2 GoodTillCancel 10 100 Sell) =
     Some (Inr (\<lparr>bids_map = [],
                 asks_map = [(100, [(1, \<lparr>GetOrderId = 2, GetOrderType = GoodTillCancel,
                                      GetInitialQuantity = 10, GetRemainingQuantity = 5,
                                      GetPrice = 100, GetSide = Sell\<rparr>)])],
                 orders_map = Map.empty, allocated = 2\<rparr>,
                [\<lparr>bidTrade = \<lparr>orderId = 1, price = 100, quantity = 5\<rparr>,
                  askTrade = \<lparr>orderId = 2, price = 100, quantity = 5\<rparr>\<rparr>]))
   \<and> AddOrder book_one_bid (Order_new 2 FillAndKill 10 100 Sell) =
     Some (Inr (\<lparr>bids_map = [],
                 asks_map = [(100, [(1, \<lparr>GetOrderId = 2, GetOrderType = FillAndKill,
                                      GetInitialQuantity = 10, GetRemainingQuantity = 5,
                                      GetPrice = 100, GetSide = Sell\<rparr>)])],
                 orders_map = Map.empty, allocated = 2\<rparr>,
                [\<lparr>bidTrade = \<lparr>orderId = 1, price = 100, quantity = 5\<rparr>,
                  askTrade = \<lparr>orderId = 2, price = 100, quantity = 5\<rparr>\<rparr>]))"
  by (simp add: engine_defs example_defs)

subsection \<open>The index and the queues\<close>

text \<open>
  Claim C2, on the code. The two calls of scenario B lead from the empty book to a book
  where order 2 is in the queue of the bid level 101, in no other queue, and the index
  has no entry for the identifier 2; \<^verbatim>\<open>CancelOrder\<close> of that identifier leaves the order
  where it is.
\<close>

theorem resting_order_missing_from_index:
  "run empty_book [Submit 1 GoodTillCancel 5 100 Sell, Submit 2 GoodTillCancel 10 101 Buy] =
     Some (book_scenario_B,
           [[], [\<lparr>bidTrade = \<lparr>orderId = 2, price = 101, quantity = 5\<rparr>,
                  askTrade = \<lparr>orderId = 1, price = 100, quantity = 5\<rparr>\<rparr>]])
   \<and> map (map (GetOrderId \<circ> snd) \<circ> snd) (bids_map book_scenario_B) = [[2]]
   \<and> asks_map book_scenario_B = []
   \<and> orders_map book_scenario_B 2 = None
   \<and> CancelOrder book_scenario_B 2 = book_scenario_B"
  by (simp add: engine_defs example_defs)

subsection \<open>What \<^verbatim>\<open>ModifyOrder\<close> returns\<close>

text \<open>
  Claim C3, on the code. In \<open>book_apart\<close> the identifier 2 is live. Modifying order 2 to
  the price 100 of the resting sell order returns no trade, whereas cancelling it and
  submitting the new order with \<^verbatim>\<open>AddOrder\<close> returns the trade of the two orders; both
  end in the same book.
\<close>

theorem ModifyOrder_returns_no_trade:
  "run empty_book [Submit 1 GoodTillCancel 5 100 Sell, Submit 2 GoodTillCancel 5 99 Buy] =
     Some (book_apart, [[], []])
   \<and> orders_map book_apart 2 \<noteq> None
   \<and> ModifyOrder book_apart
        \<lparr>GetModifyOrderId = 2, GetOrderSide = Buy, GetOrderQuantity = 5, GetOrderPrice = 100\<rparr> =
      Some (Inr (\<lparr>bids_map = [], asks_map = [], orders_map = Map.empty, allocated = 3\<rparr>, []))
   \<and> AddOrder (CancelOrder book_apart 2) (Order_new 2 GoodTillCancel 5 100 Buy) =
      Some (Inr (\<lparr>bids_map = [], asks_map = [], orders_map = Map.empty, allocated = 3\<rparr>,
                 [\<lparr>bidTrade = \<lparr>orderId = 2, price = 100, quantity = 5\<rparr>,
                   askTrade = \<lparr>orderId = 1, price = 100, quantity = 5\<rparr>\<rparr>]))"
  by (simp add: engine_defs example_defs)

subsection \<open>The two copies of the engine\<close>

lemma CancelOrder_absent: "orders_map b k = None \<Longrightarrow> CancelOrder b k = b"
  by (simp add: CancelOrder_def)

lemma dispose_bid_eq: "dispose_bid bids b = dispose_bid_2 bids b"
  by (simp add: dispose_bid_def dispose_bid_2_def Let_def CancelOrder_absent)

lemma dispose_ask_eq: "dispose_ask asks b = dispose_ask_2 asks b"
  by (simp add: dispose_ask_def dispose_ask_2_def Let_def CancelOrder_absent)

lemma copies_agree_without_match:
  assumes "asks_map b = [] \<or> bids_map b = [] \<or> fst (hd (bids_map b)) <s fst (hd (asks_map b))"
  shows "MatchLoop_2 b trades = MatchLoop b trades"
  using assms by (subst MatchLoop_2.simps, subst MatchLoop.simps) auto

text \<open>
  Claim C6, on the code. The two copies differ outside the end-of-match block: the
  second copy reads the dead \<^verbatim>\<open>quantity\<close> in every run of the body of its inner loop.
  From the empty book both copies take the sell order 1 (quantity 5, price 100) and
  return \<open>book_one_ask\<close>. The buy order 2 of quantity 10 at 101 of scenario B then makes
  \<^verbatim>\<open>src/main.cpp\<close> return the trade of quantity 5, and the second copy end at the dead
  read. The same holds of a buy order of quantity 5 at 100, which leaves no order at
  the head of either side, so that no end-of-match block runs in \<^verbatim>\<open>src/main.cpp\<close>.
\<close>

theorem second_copy_reads_dead_quantity:
  "AddOrder empty_book (Order_new 1 GoodTillCancel 5 100 Sell) = Some (Inr (book_one_ask, []))
   \<and> AddOrder_2 empty_book (Order_new 1 GoodTillCancel 5 100 Sell) =
       Some (Inr (book_one_ask, []))
   \<and> AddOrder book_one_ask (Order_new 2 GoodTillCancel 10 101 Buy) =
       Some (Inr (book_scenario_B,
                  [\<lparr>bidTrade = \<lparr>orderId = 2, price = 101, quantity = 5\<rparr>,
                    askTrade = \<lparr>orderId = 1, price = 100, quantity = 5\<rparr>\<rparr>]))
   \<and> AddOrder_2 book_one_ask (Order_new 2 GoodTillCancel 10 101 Buy) = Some (Inl DanglingRead)
   \<and> AddOrder book_one_ask (Order_new 2 GoodTillCancel 5 100 Buy) =
       Some (Inr (\<lparr>bids_map = [], asks_map = [], orders_map = Map.empty, allocated = 2\<rparr>,
                  [\<lparr>bidTrade = \<lparr>orderId = 2, price = 100, quantity = 5\<rparr>,
                    askTrade = \<lparr>orderId = 1, price = 100, quantity = 5\<rparr>\<rparr>]))
   \<and> AddOrder_2 book_one_ask (Order_new 2 GoodTillCancel 5 100 Buy) = Some (Inl DanglingRead)"
  by (simp add: engine_defs example_defs AddOrder_2_def MatchOrders_2_def MatchLoop_2.simps
      MatchLevels_2.simps MatchStep_2_dangling)


subsection \<open>Termination of the matching loop\<close>

lemma in_map_put:
  "(k, v) \<in> set (map_put m p q) \<Longrightarrow> (k = p \<and> v = q) \<or> (k \<noteq> p \<and> (k, v) \<in> set m)"
  by (auto simp: map_put_def split: if_splits)

lemma in_map_erase: "(k, v) \<in> set (map_erase m p) \<longleftrightarrow> k \<noteq> p \<and> (k, v) \<in> set m"
  by (auto simp: map_erase_def)

lemma in_map_subscript:
  "(k, v) \<in> set (map_subscript cmp m p) \<Longrightarrow> (k, v) \<in> set m \<or> (k = p \<and> v = [])"
  by (induction cmp m p rule: map_subscript.induct) (auto split: if_splits)

lemma nonempty_levels_iff: "nonempty_levels m \<longleftrightarrow> (\<forall>k v. (k, v) \<in> set m \<longrightarrow> v \<noteq> [])"
  by (auto simp: nonempty_levels_def list_all_iff)

lemma nonempty_levels_erase: "nonempty_levels m \<Longrightarrow> nonempty_levels (map_erase m p)"
  by (auto simp: nonempty_levels_iff in_map_erase)

lemma nonempty_levels_put:
  "nonempty_levels m \<Longrightarrow> q \<noteq> [] \<Longrightarrow> nonempty_levels (map_put m p q)"
  by (auto simp: nonempty_levels_iff dest: in_map_put)

lemma nonempty_levels_subscript_erase:
  "nonempty_levels m \<Longrightarrow> nonempty_levels (map_erase (map_subscript cmp m p) p)"
  by (auto simp: nonempty_levels_iff in_map_erase dest: in_map_subscript)

lemma nonempty_levels_subscript_put:
  "nonempty_levels m \<Longrightarrow> q \<noteq> [] \<Longrightarrow> nonempty_levels (map_put (map_subscript cmp m p) p q)"
  by (auto simp: nonempty_levels_iff dest!: in_map_put dest: in_map_subscript)

lemma length_map_put: "length (map_put m p q) = length m"
  by (simp add: map_put_def)

lemma length_map_erase: "length (map_erase m p) \<le> length m"
  by (simp add: map_erase_def)

lemma length_map_erase_head:
  "m \<noteq> [] \<Longrightarrow> fst (hd m) = p \<Longrightarrow> length (map_erase m p) < length m"
  by (cases m) (auto simp: map_erase_def le_imp_less_Suc)

lemma hd_map_put: "m \<noteq> [] \<Longrightarrow> fst (hd m) = p \<Longrightarrow> hd (map_put m p q) = (p, q) \<and> map_put m p q \<noteq> []"
  by (cases m) (auto simp: map_put_def)

lemma MatchStep_maps:
  assumes "MatchStep bidPrice askPrice bids asks b = Inr (bids', asks', b', t)"
  shows "bids_map b' = (if bids' = [] then map_erase (bids_map b) bidPrice
                        else map_put (bids_map b) bidPrice bids')"
    and "asks_map b' = (if asks' = [] then map_erase (asks_map b) askPrice
                        else map_put (asks_map b) askPrice asks')"
  using assms by (auto simp: MatchStep_eq Let_def)

lemma MatchStep_pruned:
  assumes step: "MatchStep bidPrice askPrice bids asks b = Inr (bids', asks', b', t)"
    and "pruned b" and "at_heads bidPrice askPrice bids asks b"
    and "bids \<noteq> []" and "asks \<noteq> []"
  shows "pruned b'" and "at_heads bidPrice askPrice bids' asks' b'"
    and "level_count b' \<le> level_count b"
    and "bids' = [] \<or> asks' = [] \<Longrightarrow> level_count b' < level_count b"
proof -
  note maps = MatchStep_maps [OF step]
  have hb: "bids_map b \<noteq> []" "fst (hd (bids_map b)) = bidPrice"
    and ha: "asks_map b \<noteq> []" "fst (hd (asks_map b)) = askPrice"
    using assms(3-5) by (auto simp: at_heads_def)
  show "pruned b'"
    using assms(2) by (simp add: pruned_def maps nonempty_levels_erase nonempty_levels_put)
  show "at_heads bidPrice askPrice bids' asks' b'"
    using hd_map_put [OF hb] hd_map_put [OF ha] by (simp add: at_heads_def maps)
  have lb: "length (bids_map b') \<le> length (bids_map b)"
    and la: "length (asks_map b') \<le> length (asks_map b)"
    by (simp_all add: maps length_map_put length_map_erase)
  then show "level_count b' \<le> level_count b" by (simp add: level_count_def)
  assume "bids' = [] \<or> asks' = []"
  then show "level_count b' < level_count b"
  proof
    assume "bids' = []"
    then have "length (bids_map b') < length (bids_map b)"
      using length_map_erase_head [OF hb] by (simp add: maps)
    with la show ?thesis by (simp add: level_count_def)
  next
    assume "asks' = []"
    then have "length (asks_map b') < length (asks_map b)"
      using length_map_erase_head [OF ha] by (simp add: maps)
    with lb show ?thesis by (simp add: level_count_def)
  qed
qed

lemma MatchLevels_pruned:
  assumes "MatchLevels bidPrice askPrice bids asks b trades = Inr (bids', asks', b', trades')"
    and "pruned b" and "at_heads bidPrice askPrice bids asks b"
  shows "pruned b' \<and> at_heads bidPrice askPrice bids' asks' b'
         \<and> (bids \<noteq> [] \<and> asks \<noteq> [] \<longrightarrow> level_count b' < level_count b)
         \<and> level_count b' \<le> level_count b"
  using assms
proof (induction bidPrice askPrice bids asks b trades rule: MatchLevels.induct)
  case (1 bidPrice askPrice bids asks b trades)
  show ?case
  proof (cases "bids \<noteq> [] \<and> asks \<noteq> []")
    case False
    with "1.prems" show ?thesis by (subst (asm) MatchLevels.simps) auto
  next
    case True
    obtain bids1 asks1 b1 t where
      step: "MatchStep bidPrice askPrice bids asks b = Inr (bids1, asks1, b1, t)"
      using MatchStep_no_error [of bidPrice askPrice bids asks b]
      by (cases "MatchStep bidPrice askPrice bids asks b") auto
    have rest: "MatchLevels bidPrice askPrice bids1 asks1 b1 (trades @ [t]) =
            Inr (bids', asks', b', trades')"
      using "1.prems"(1) True step by (subst (asm) MatchLevels.simps) simp
    from True have ne: "bids \<noteq> []" "asks \<noteq> []" by simp_all
    note s = MatchStep_pruned [OF step "1.prems"(2,3) ne]
    from "1.IH" [OF True step refl refl refl rest s(1,2)]
    have IH: "pruned b'" "at_heads bidPrice askPrice bids' asks' b'"
      "bids1 \<noteq> [] \<and> asks1 \<noteq> [] \<longrightarrow> level_count b' < level_count b1"
      "level_count b' \<le> level_count b1" by simp_all
    have "level_count b' < level_count b"
    proof (cases "bids1 = [] \<or> asks1 = []")
      case True
      from s(4) [OF True] IH(4) show ?thesis by simp
    next
      case False
      with IH(3) s(3) show ?thesis by simp
    qed
    with IH show ?thesis by simp
  qed
qed

lemma dispose_maps:
  "bids_map (dispose_ask asks (dispose_bid bids b)) = bids_map b"
  "asks_map (dispose_ask asks (dispose_bid bids b)) = asks_map b"
  by (simp_all add: dispose_bid_eq dispose_ask_eq dispose_bid_2_def dispose_ask_2_def Let_def)

lemma at_heads_start:
  "pruned b \<Longrightarrow> bids_map b \<noteq> [] \<Longrightarrow> asks_map b \<noteq> [] \<Longrightarrow>
     at_heads (fst (hd (bids_map b))) (fst (hd (asks_map b)))
       (snd (hd (bids_map b))) (snd (hd (asks_map b))) b
     \<and> snd (hd (bids_map b)) \<noteq> [] \<and> snd (hd (asks_map b)) \<noteq> []"
  by (cases "bids_map b"; cases "asks_map b")
     (auto simp: at_heads_def pruned_def nonempty_levels_def)

text \<open>One pass of the outer loop that does not leave at a \<^verbatim>\<open>break\<close>.\<close>

lemma MatchLoop_pass:
  assumes "pruned b" and "bids_map b \<noteq> []" and "asks_map b \<noteq> []"
    and "MatchLevels (fst (hd (bids_map b))) (fst (hd (asks_map b)))
           (snd (hd (bids_map b))) (snd (hd (asks_map b))) b trades = Inr (bids, asks, b', trades')"
  shows "pruned (dispose_ask asks (dispose_bid bids b'))"
    and "level_count (dispose_ask asks (dispose_bid bids b')) < level_count b"
proof -
  note h = at_heads_start [OF assms(1-3)]
  from MatchLevels_pruned [OF assms(4,1)] h
  have "pruned b'" "level_count b' < level_count b" by simp_all
  then show "pruned (dispose_ask asks (dispose_bid bids b'))"
    and "level_count (dispose_ask asks (dispose_bid bids b')) < level_count b"
    by (simp_all add: pruned_def level_count_def dispose_maps)
qed

lemma MatchLoop_returns:
  "pruned b \<Longrightarrow> \<exists>r. MatchLoop b trades = Some r"
proof (induction "level_count b" arbitrary: b trades rule: less_induct)
  case less
  show ?case
  proof (cases "asks_map b = [] \<or> bids_map b = [] \<or> fst (hd (bids_map b)) <s fst (hd (asks_map b))")
    case True
    then show ?thesis by (subst MatchLoop.simps) auto
  next
    case False
    then have ne: "bids_map b \<noteq> []" "asks_map b \<noteq> []" by simp_all
    obtain bids asks b' trades' where
      lv: "MatchLevels (fst (hd (bids_map b))) (fst (hd (asks_map b)))
           (snd (hd (bids_map b))) (snd (hd (asks_map b))) b trades = Inr (bids, asks, b', trades')"
      using MatchLevels_no_error [of "fst (hd (bids_map b))" "fst (hd (asks_map b))"
           "snd (hd (bids_map b))" "snd (hd (asks_map b))" b trades]
      by (cases "MatchLevels (fst (hd (bids_map b))) (fst (hd (asks_map b)))
           (snd (hd (bids_map b))) (snd (hd (asks_map b))) b trades") auto
    note p = MatchLoop_pass [OF less.prems ne lv]
    from less.hyps [OF p(2) p(1)] obtain r where
      "MatchLoop (dispose_ask asks (dispose_bid bids b')) trades' = Some r" ..
    with False lv show ?thesis by (subst MatchLoop.simps) simp
  qed
qed


lemma nonempty_levels_push_back:
  "nonempty_levels m \<Longrightarrow> nonempty_levels (level_push_back cmp m p n)"
  by (simp add: level_push_back_def Let_def nonempty_levels_subscript_put)

lemma pruned_insert_order: "pruned b \<Longrightarrow> pruned (insert_order b x)"
  by (simp add: insert_order_def Let_def pruned_def nonempty_levels_push_back)

lemma pruned_CancelOrder: "pruned b \<Longrightarrow> pruned (CancelOrder b k)"
  by (auto simp: CancelOrder_def Let_def pruned_def nonempty_levels_subscript_put
      nonempty_levels_subscript_erase split: option.splits)

lemma MatchLoop_pruned:
  assumes "MatchLoop b trades = Some r"
  shows "pruned b \<longrightarrow> (\<forall>b' trades'. r = Inr (b', trades') \<longrightarrow> pruned b')"
proof (rule MatchLoop.raw_induct
        [where P = "\<lambda>b trades r. pruned b \<longrightarrow> (\<forall>b' trades'. r = Inr (b', trades') \<longrightarrow> pruned b')",
         OF _ assms])
  fix f b trades r
  assume IH: "\<And>b trades r. f b trades = Some r \<Longrightarrow>
                pruned b \<longrightarrow> (\<forall>b' trades'. r = Inr (b', trades') \<longrightarrow> pruned b')"
    and eq: "(if asks_map b = [] \<or> bids_map b = [] then Some (Inr (b, trades))
      else if fst (hd (bids_map b)) <s fst (hd (asks_map b)) then Some (Inr (b, trades))
      else
        (case MatchLevels (fst (hd (bids_map b))) (fst (hd (asks_map b)))
                (snd (hd (bids_map b))) (snd (hd (asks_map b))) b trades of
           Inl e \<Rightarrow> Some (Inl e)
         | Inr (bids, asks, b', trades') \<Rightarrow>
             f (dispose_ask asks (dispose_bid bids b')) trades')) = Some r"
  show "pruned b \<longrightarrow> (\<forall>b' trades'. r = Inr (b', trades') \<longrightarrow> pruned b')"
    using eq
    by (auto split: if_splits sum.splits dest!: IH dest: MatchLoop_pass(1))
qed

lemma AddOrder_pruned:
  "pruned b \<Longrightarrow> AddOrder b x = Some (Inr (b', trades)) \<Longrightarrow> pruned b'"
  using MatchLoop_pruned [of "insert_order b x" "[]" "Inr (b', trades)"]
  by (auto simp: AddOrder_def MatchOrders_def pruned_insert_order split: if_splits)

lemma AddOrder_returns: "pruned b \<Longrightarrow> \<exists>r. AddOrder b x = Some r"
  by (simp add: AddOrder_def MatchOrders_def MatchLoop_returns pruned_insert_order)

lemma ModifyOrder_returns:
  assumes "pruned b"
  shows "\<exists>r. ModifyOrder b m = Some r"
proof (cases "orders_map b (GetModifyOrderId m)")
  case None
  then show ?thesis by (simp add: ModifyOrder_def)
next
  case (Some existing)
  let ?c = "CancelOrder b (GetModifyOrderId m)"
  let ?x = "ToOrderPointer m (GetOrderType (order existing))"
  have pc: "pruned ?c" using assms by (rule pruned_CancelOrder)
  from AddOrder_returns [OF pc] obtain r where r: "AddOrder ?c ?x = Some r" ..
  show ?thesis
  proof (cases r)
    case (Inl e)
    with r Some show ?thesis by (simp add: ModifyOrder_def)
  next
    case (Inr bt)
    obtain b' dropped where bt: "bt = (b', dropped)" by (cases bt)
    from AddOrder_pruned [OF pc] r Inr bt have "pruned b'" by simp
    from MatchLoop_returns [OF this] obtain r' where "MatchLoop b' [] = Some r'" ..
    with r Inr bt Some show ?thesis by (simp add: ModifyOrder_def MatchOrders_def)
  qed
qed

lemma ModifyOrder_pruned:
  assumes "pruned b" and "ModifyOrder b m = Some (Inr (b', trades))"
  shows "pruned b'"
proof (cases "orders_map b (GetModifyOrderId m)")
  case None
  with assms show ?thesis by (simp add: ModifyOrder_def)
next
  case (Some existing)
  let ?c = "CancelOrder b (GetModifyOrderId m)"
  let ?x = "ToOrderPointer m (GetOrderType (order existing))"
  have pc: "pruned ?c" using assms(1) by (rule pruned_CancelOrder)
  from assms(2) Some obtain b1 dropped where
    a: "AddOrder ?c ?x = Some (Inr (b1, dropped))" and m: "MatchLoop b1 [] = Some (Inr (b', trades))"
    by (auto simp: ModifyOrder_def MatchOrders_def split: option.splits sum.splits)
  from AddOrder_pruned [OF pc a] have "pruned b1" .
  with MatchLoop_pruned [OF m] show ?thesis by simp
qed

lemma call_pruned: "pruned b \<Longrightarrow> call b c = Some (Inr (b', trades)) \<Longrightarrow> pruned b'"
  by (cases c) (auto dest: AddOrder_pruned ModifyOrder_pruned simp: pruned_CancelOrder)

lemma run_pruned: "pruned b \<Longrightarrow> run b cs = Some (b', rs) \<Longrightarrow> pruned b'"
proof (induction cs arbitrary: b rs)
  case Nil
  then show ?case by simp
next
  case (Cons c cs)
  from Cons.prems(2) obtain b1 trades rest where
    c: "call b c = Some (Inr (b1, trades))" and r: "run b1 cs = Some (b', rest)"
    by (auto split: option.splits sum.splits)
  from Cons.IH [OF call_pruned [OF Cons.prems(1) c] r] show ?case .
qed

lemma reachable_pruned: "reachable b \<Longrightarrow> pruned b"
  unfolding reachable_def
  using run_pruned [of empty_book] by (auto simp: pruned_def empty_book_def nonempty_levels_def)

text \<open>
  Claim C7. On a book without empty queues (as every book reachable from the empty one
  is, and stays after \<^verbatim>\<open>AddOrder\<close> has inserted its order) \<^verbatim>\<open>MatchOrders\<close> returns, and so
  do \<^verbatim>\<open>AddOrder\<close> and \<^verbatim>\<open>ModifyOrder\<close>. Each pass of the outer loop that does not leave
  at a \<^verbatim>\<open>break\<close> ends with fewer price levels than it started with, and again without
  empty queues.
\<close>

theorem MatchOrders_terminates:
  assumes "pruned b"
  shows "(\<exists>r. MatchOrders b = Some r)
     \<and> (\<exists>r. AddOrder b x = Some r)
     \<and> (\<exists>r. ModifyOrder b m = Some r)
     \<and> (bids_map b \<noteq> [] \<and> asks_map b \<noteq> [] \<and>
          MatchLevels (fst (hd (bids_map b))) (fst (hd (asks_map b)))
            (snd (hd (bids_map b))) (snd (hd (asks_map b))) b trades = Inr (bids, asks, b', trades')
        \<longrightarrow> level_count (dispose_ask asks (dispose_bid bids b')) < level_count b
            \<and> pruned (dispose_ask asks (dispose_bid bids b')))
     \<and> (reachable c \<longrightarrow> pruned c)"
  using assms MatchLoop_returns [OF assms, of "[]"] MatchLoop_pass [OF assms, of trades bids asks b' trades']
  by (simp add: MatchOrders_def AddOrder_returns ModifyOrder_returns reachable_pruned)


theorem MatchOrders_terminates_witness:
  "pruned (insert_order book_one_ask (Order_new 2 GoodTillCancel 10 101 Buy))
   \<and> (\<exists>r. MatchOrders (insert_order book_one_ask (Order_new 2 GoodTillCancel 10 101 Buy)) = Some r)
   \<and> (\<exists>bids asks b' trades'.
         MatchLevels 101 100 [(1, Order_new 2 GoodTillCancel 10 101 Buy)]
           [(0, Order_new 1 GoodTillCancel 5 100 Sell)]
           (insert_order book_one_ask (Order_new 2 GoodTillCancel 10 101 Buy)) [] =
           Inr (bids, asks, b', trades')
         \<and> level_count (dispose_ask asks (dispose_bid bids b')) <
             level_count (insert_order book_one_ask (Order_new 2 GoodTillCancel 10 101 Buy)))"
proof -
  let ?b = "insert_order book_one_ask (Order_new 2 GoodTillCancel 10 101 Buy)"
  have p: "pruned ?b"
    by (simp add: engine_defs example_defs pruned_def nonempty_levels_def)
  have hd: "bids_map ?b = [(101, [(1, Order_new 2 GoodTillCancel 10 101 Buy)])]"
    "asks_map ?b = [(100, [(0, Order_new 1 GoodTillCancel 5 100 Sell)])]"
    by (simp_all add: engine_defs example_defs)
  obtain bids asks b' trades' where
    lv: "MatchLevels 101 100 [(1, Order_new 2 GoodTillCancel 10 101 Buy)]
           [(0, Order_new 1 GoodTillCancel 5 100 Sell)] ?b [] = Inr (bids, asks, b', trades')"
    using MatchLevels_no_error [of 101 100 "[(1, Order_new 2 GoodTillCancel 10 101 Buy)]"
           "[(0, Order_new 1 GoodTillCancel 5 100 Sell)]" ?b "[]"]
    by (cases "MatchLevels 101 100 [(1, Order_new 2 GoodTillCancel 10 101 Buy)]
           [(0, Order_new 1 GoodTillCancel 5 100 Sell)] ?b []") auto
  from MatchOrders_terminates [OF p, of _ _ "[]" bids asks b' trades'] lv hd
  have "(\<exists>r. MatchOrders ?b = Some r)
        \<and> level_count (dispose_ask asks (dispose_bid bids b')) < level_count ?b"
    by simp
  with p lv show ?thesis by blast
qed

subsection \<open>Remaining quantities\<close>

lemma sint_diff_small:
  fixes a c :: "32 word"
  assumes "0 \<le> sint c" and "sint c \<le> sint a"
  shows "sint (a - c) = sint a - sint c"
proof -
  have "sint a < 2 ^ 31" using sint_lt [of a] by simp
  moreover have "- (2 ^ 31) \<le> sint a" using sint_ge [of a] by simp
  ultimately have "- (2 ^ 31) \<le> sint a - sint c" "sint a - sint c < 2 ^ 31"
    using assms by simp_all
  then have "signed_take_bit 31 (sint a - sint c) = sint a - sint c"
    by (rule signed_take_bit_int_eq_self)
  then show ?thesis by (simp add: sint_word_ariths)
qed

lemma fill_within:
  fixes a c :: "32 word"
  assumes "0 \<le>s a" and "0 \<le>s c"
  shows "0 \<le>s a - std_min a c \<and> a - std_min a c \<le>s a"
proof (cases "c <s a")
  case True
  then have "sint (a - c) = sint a - sint c"
    using assms(2) by (intro sint_diff_small) (simp_all add: word_sle_eq word_sless_alt)
  with True assms show ?thesis by (simp add: std_min_def word_sle_eq word_sless_alt)
next
  case False
  with assms show ?thesis by (simp add: std_min_def)
qed

lemma fill_within_right:
  fixes a c :: "32 word"
  assumes "0 \<le>s a" and "0 \<le>s c"
  shows "0 \<le>s c - std_min a c \<and> c - std_min a c \<le>s c"
proof (cases "c <s a")
  case True
  with assms show ?thesis by (simp add: std_min_def)
next
  case False
  then have "sint (c - a) = sint c - sint a"
    using assms(1) by (intro sint_diff_small) (simp_all add: word_sle_eq word_sless_alt)
  with False assms show ?thesis by (simp add: std_min_def word_sle_eq word_sless_alt)
qed


lemma sound_levels_iff: "sound_levels m \<longleftrightarrow> (\<forall>k v. (k, v) \<in> set m \<longrightarrow> sound_queue v)"
  by (auto simp: sound_levels_def list_all_iff)

lemma sound_levels_erase: "sound_levels m \<Longrightarrow> sound_levels (map_erase m p)"
  by (auto simp: sound_levels_iff in_map_erase)

lemma sound_levels_put: "sound_levels m \<Longrightarrow> sound_queue q \<Longrightarrow> sound_levels (map_put m p q)"
  by (auto simp: sound_levels_iff dest: in_map_put)

lemma sound_levels_subscript: "sound_levels m \<Longrightarrow> sound_levels (map_subscript cmp m p)"
  by (auto simp: sound_levels_iff sound_queue_def dest: in_map_subscript)

lemma sound_queue_get: "sound_levels m \<Longrightarrow> sound_queue (map_get m p)"
  by (auto simp: sound_levels_iff map_get_def sound_queue_def split: option.splits
      dest!: map_of_SomeD)

lemma sound_queue_erase: "sound_queue q \<Longrightarrow> sound_queue (list_erase q l)"
  by (auto simp: sound_queue_def list_erase_def list_all_iff)

lemma sound_levels_push_back:
  "sound_levels m \<Longrightarrow> within_initial x \<Longrightarrow> sound_levels (level_push_back cmp m p (l, x))"
  by (simp add: level_push_back_def Let_def sound_levels_put sound_levels_subscript
      sound_queue_def sound_queue_get [unfolded sound_queue_def])

lemma sound_insert_order: "sound b \<Longrightarrow> within_initial x \<Longrightarrow> sound (insert_order b x)"
  by (simp add: insert_order_def Let_def sound_def sound_levels_push_back)

lemma sound_CancelOrder: "sound b \<Longrightarrow> sound (CancelOrder b k)"
  by (auto simp: CancelOrder_def Let_def sound_def sound_levels_put sound_levels_erase
      sound_levels_subscript sound_queue_erase sound_queue_get split: option.splits)

lemma within_initial_new: "0 \<le>s q \<Longrightarrow> within_initial (Order_new k t q p s)"
  by (simp add: within_initial_def Order_new_def)

lemma MatchStep_sound:
  assumes step: "MatchStep bidPrice askPrice bids asks b = Inr (bids', asks', b', t)"
    and "sound b" and "sound_queue bids" and "sound_queue asks"
    and "bids \<noteq> []" and "asks \<noteq> []"
  shows "sound b' \<and> sound_queue bids' \<and> sound_queue asks'"
proof -
  obtain bl bid bs where bids: "bids = (bl, bid) # bs" using assms(5) by (cases bids) auto
  obtain al ask as where asks: "asks = (al, ask) # as" using assms(6) by (cases asks) auto
  have wb: "within_initial bid" "sound_queue bs" and wa: "within_initial ask" "sound_queue as"
    using assms(3,4) by (simp_all add: bids asks sound_queue_def)
  let ?q = "std_min (GetRemainingQuantity bid) (GetRemainingQuantity ask)"
  have b1: "within_initial (bid\<lparr>GetRemainingQuantity := GetRemainingQuantity bid - ?q\<rparr>)"
    using wb(1) wa(1) fill_within [of "GetRemainingQuantity bid" "GetRemainingQuantity ask"]
    by (auto simp: within_initial_def word_sle_eq)
  have a1: "within_initial (ask\<lparr>GetRemainingQuantity := GetRemainingQuantity ask - ?q\<rparr>)"
    using wb(1) wa(1) fill_within_right [of "GetRemainingQuantity bid" "GetRemainingQuantity ask"]
    by (auto simp: within_initial_def word_sle_eq)
  have q: "sound_queue bids'" "sound_queue asks'"
    using step wb(2) wa(2) b1 a1
    by (auto simp: MatchStep_eq Let_def bids asks sound_queue_def split: if_splits)
  moreover have "sound b'"
    using MatchStep_maps [OF step] assms(2) q
    by (simp add: sound_def sound_levels_erase sound_levels_put)
  ultimately show ?thesis by simp
qed

lemma MatchLevels_sound:
  assumes "MatchLevels bidPrice askPrice bids asks b trades = Inr (bids', asks', b', trades')"
    and "sound b" and "sound_queue bids" and "sound_queue asks"
  shows "sound b'"
  using assms
proof (induction bidPrice askPrice bids asks b trades rule: MatchLevels.induct)
  case (1 bidPrice askPrice bids asks b trades)
  show ?case
  proof (cases "bids \<noteq> [] \<and> asks \<noteq> []")
    case False
    with "1.prems" show ?thesis by (subst (asm) MatchLevels.simps) auto
  next
    case True
    obtain bids1 asks1 b1 t where
      step: "MatchStep bidPrice askPrice bids asks b = Inr (bids1, asks1, b1, t)"
      using MatchStep_no_error [of bidPrice askPrice bids asks b]
      by (cases "MatchStep bidPrice askPrice bids asks b") auto
    have rest: "MatchLevels bidPrice askPrice bids1 asks1 b1 (trades @ [t]) =
            Inr (bids', asks', b', trades')"
      using "1.prems"(1) True step by (subst (asm) MatchLevels.simps) simp
    from True have ne: "bids \<noteq> []" "asks \<noteq> []" by simp_all
    from MatchStep_sound [OF step "1.prems"(2-4) ne]
    have s: "sound b1" "sound_queue bids1" "sound_queue asks1" by simp_all
    from "1.IH" [OF True step refl refl refl rest s] show ?thesis .
  qed
qed

lemma sound_dispose: "sound (dispose_ask asks (dispose_bid bids b)) = sound b"
  by (simp add: sound_def dispose_maps)

lemma sound_head_queues:
  "sound b \<Longrightarrow> bids_map b \<noteq> [] \<Longrightarrow> asks_map b \<noteq> [] \<Longrightarrow>
     sound_queue (snd (hd (bids_map b))) \<and> sound_queue (snd (hd (asks_map b)))"
  by (cases "bids_map b"; cases "asks_map b") (auto simp: sound_def sound_levels_def)

lemma MatchLoop_sound:
  assumes "MatchLoop b trades = Some r"
  shows "sound b \<longrightarrow> (\<forall>b' trades'. r = Inr (b', trades') \<longrightarrow> sound b')"
proof (rule MatchLoop.raw_induct
        [where P = "\<lambda>b trades r. sound b \<longrightarrow> (\<forall>b' trades'. r = Inr (b', trades') \<longrightarrow> sound b')",
         OF _ assms])
  fix f b trades r
  assume IH: "\<And>b trades r. f b trades = Some r \<Longrightarrow>
                sound b \<longrightarrow> (\<forall>b' trades'. r = Inr (b', trades') \<longrightarrow> sound b')"
    and eq: "(if asks_map b = [] \<or> bids_map b = [] then Some (Inr (b, trades))
      else if fst (hd (bids_map b)) <s fst (hd (asks_map b)) then Some (Inr (b, trades))
      else
        (case MatchLevels (fst (hd (bids_map b))) (fst (hd (asks_map b)))
                (snd (hd (bids_map b))) (snd (hd (asks_map b))) b trades of
           Inl e \<Rightarrow> Some (Inl e)
         | Inr (bids, asks, b', trades') \<Rightarrow>
             f (dispose_ask asks (dispose_bid bids b')) trades')) = Some r"
  show "sound b \<longrightarrow> (\<forall>b' trades'. r = Inr (b', trades') \<longrightarrow> sound b')"
    using eq
    by (auto split: if_splits sum.splits dest!: IH
        simp: sound_dispose sound_head_queues dest: MatchLevels_sound)
qed


lemma AddOrder_sound:
  "sound b \<Longrightarrow> within_initial x \<Longrightarrow> AddOrder b x = Some (Inr (b', trades)) \<Longrightarrow> sound b'"
  using MatchLoop_sound [of "insert_order b x" "[]" "Inr (b', trades)"]
  by (auto simp: AddOrder_def MatchOrders_def sound_insert_order split: if_splits)

lemma ModifyOrder_sound:
  assumes "sound b" and "0 \<le>s GetOrderQuantity m" and "ModifyOrder b m = Some (Inr (b', trades))"
  shows "sound b'"
proof (cases "orders_map b (GetModifyOrderId m)")
  case None
  with assms show ?thesis by (simp add: ModifyOrder_def)
next
  case (Some existing)
  let ?c = "CancelOrder b (GetModifyOrderId m)"
  let ?x = "ToOrderPointer m (GetOrderType (order existing))"
  have sc: "sound ?c" using assms(1) by (rule sound_CancelOrder)
  have wx: "within_initial ?x" using assms(2) by (simp add: ToOrderPointer_def within_initial_new)
  from assms(3) Some obtain b1 dropped where
    a: "AddOrder ?c ?x = Some (Inr (b1, dropped))" and m: "MatchLoop b1 [] = Some (Inr (b', trades))"
    by (auto simp: ModifyOrder_def MatchOrders_def split: option.splits sum.splits)
  from AddOrder_sound [OF sc wx a] have "sound b1" .
  with MatchLoop_sound [OF m] show ?thesis by simp
qed

lemma call_sound:
  "sound b \<Longrightarrow> nonneg_quantity c \<Longrightarrow> call b c = Some (Inr (b', trades)) \<Longrightarrow> sound b'"
proof (cases c)
  case (Submit k t q p s)
  then show "sound b \<Longrightarrow> nonneg_quantity c \<Longrightarrow> call b c = Some (Inr (b', trades)) \<Longrightarrow> sound b'"
    using AddOrder_sound [of b "Order_new k t q p s" b' trades] by (simp add: within_initial_new)
next
  case (Cancel k)
  then show "sound b \<Longrightarrow> nonneg_quantity c \<Longrightarrow> call b c = Some (Inr (b', trades)) \<Longrightarrow> sound b'"
    by (auto simp: sound_CancelOrder)
next
  case (Modify k s q p)
  then show "sound b \<Longrightarrow> nonneg_quantity c \<Longrightarrow> call b c = Some (Inr (b', trades)) \<Longrightarrow> sound b'"
    using ModifyOrder_sound [of b "\<lparr>GetModifyOrderId = k, GetOrderSide = s, GetOrderQuantity = q,
                    GetOrderPrice = p\<rparr>" b' trades] by simp
qed

lemma run_sound:
  "sound b \<Longrightarrow> list_all nonneg_quantity cs \<Longrightarrow> run b cs = Some (b', rs) \<Longrightarrow> sound b'"
proof (induction cs arbitrary: b rs)
  case Nil
  then show ?case by simp
next
  case (Cons c cs)
  from Cons.prems(3) obtain b1 trades rest where
    c: "call b c = Some (Inr (b1, trades))" and r: "run b1 cs = Some (b', rest)"
    by (auto split: option.splits sum.splits)
  from Cons.prems(2) have n: "nonneg_quantity c" "list_all nonneg_quantity cs" by simp_all
  from Cons.IH [OF call_sound [OF Cons.prems(1) n(1) c] n(2) r] show ?case .
qed

lemma sound_resting: "sound b \<Longrightarrow> x \<in> resting b \<Longrightarrow> within_initial x"
  by (fastforce simp: sound_def sound_levels_def sound_queue_def resting_def level_orders_def
      list_all_iff)

text \<open>
  Claim C8, as stated, fails on the code: \<^verbatim>\<open>AddOrder\<close> takes a negative quantity. A buy
  order of quantity -1 rests with -1 remaining; a sell order of quantity -3 that meets a
  resting buy order of quantity 5 is a fill of -3, which leaves the buy order with 8
  remaining, more than before and more than its initial quantity.
\<close>

theorem remaining_negative_or_grown:
  "run empty_book [Submit 1 GoodTillCancel (- 1) 100 Buy] = Some (book_negative, [[]])
   \<and> bids_map book_negative = [(100, [(0, Order_new 1 GoodTillCancel (- 1) 100 Buy)])]
   \<and> GetRemainingQuantity (Order_new 1 GoodTillCancel (- 1) 100 Buy) <s 0
   \<and> run empty_book [Submit 1 GoodTillCancel 5 100 Buy, Submit 2 GoodTillCancel (- 3) 100 Sell] =
       Some (book_refilled,
             [[], [\<lparr>bidTrade = \<lparr>orderId = 1, price = 100, quantity = - 3\<rparr>,
                    askTrade = \<lparr>orderId = 2, price = 100, quantity = - 3\<rparr>\<rparr>]])
   \<and> map (map (\<lambda>n. (GetInitialQuantity (snd n), GetRemainingQuantity (snd n))) \<circ> snd)
         (bids_map book_refilled) = [[(5, 8)]]
   \<and> (5 :: Quantity) <s 8"
  by (simp add: engine_defs example_defs)

subsection \<open>The head of a side is its best price\<close>

text \<open>
  \<^verbatim>\<open>operator[]\<close> inserts a new level at its place and nothing else adds a level, so
  the levels of every reachable book are in the order of the comparators, and
  \<^verbatim>\<open>begin()\<close>, the head of the list, is the highest bid and the lowest ask.
\<close>

lemma keys_map_put: "map fst (map_put m p q) = map fst m"
  by (induction m) (auto simp: map_put_def)

lemma keys_map_erase: "map fst (map_erase m p) = filter (\<lambda>k. k \<noteq> p) (map fst m)"
  by (induction m) (auto simp: map_erase_def)

lemma keys_map_subscript: "k \<in> fst ` set (map_subscript cmp m p) \<Longrightarrow> k = p \<or> k \<in> fst ` set m"
  by (induction cmp m p rule: map_subscript.induct) (auto split: if_splits)

lemma sorted_map_subscript:
  assumes trans: "\<And>x y z. cmp x y \<Longrightarrow> cmp y z \<Longrightarrow> cmp x z"
    and total: "\<And>x y. x \<noteq> y \<Longrightarrow> \<not> cmp x y \<Longrightarrow> cmp y x"
  shows "sorted_wrt cmp (map fst m) \<Longrightarrow> sorted_wrt cmp (map fst (map_subscript cmp m p))"
proof (induction m)
  case Nil
  then show ?case by simp
next
  case (Cons kq m)
  obtain k q where kq: "kq = (k, q)" by (cases kq)
  from Cons.prems have below: "\<forall>k' \<in> fst ` set m. cmp k k'" and rest: "sorted_wrt cmp (map fst m)"
    by (simp_all add: kq)
  show ?case
  proof (cases "k = p")
    case True
    with Cons.prems show ?thesis by (simp add: kq)
  next
    case False
    show ?thesis
    proof (cases "cmp p k")
      case True
      with False Cons.prems below show ?thesis by (auto simp: kq intro: trans)
    next
      case notless: False
      from False have "p \<noteq> k" by simp
      from total [OF this notless] have "cmp k p" .
      with below have "\<forall>k' \<in> fst ` set (map_subscript cmp m p). cmp k k'"
        using keys_map_subscript [of _ cmp m p] by blast
      with False notless Cons.IH [OF rest] show ?thesis by (simp add: kq)
    qed
  qed
qed

lemma sorted_bids_subscript:
  "sorted_wrt std_greater (map fst m) \<Longrightarrow> sorted_wrt std_greater (map fst (map_subscript std_greater m p))"
  by (rule sorted_map_subscript) (auto simp: std_greater_def elim: signed.neqE)

lemma sorted_asks_subscript:
  "sorted_wrt std_less (map fst m) \<Longrightarrow> sorted_wrt std_less (map fst (map_subscript std_less m p))"
  by (rule sorted_map_subscript) (auto simp: std_less_def elim: signed.neqE)


lemma sorted_keys_erase: "sorted_wrt cmp (map fst m) \<Longrightarrow> sorted_wrt cmp (map fst (map_erase m p))"
  by (simp add: keys_map_erase sorted_wrt_filter)

lemma MatchStep_ordered:
  assumes "MatchStep bidPrice askPrice bids asks b = Inr (bids', asks', b', t)" and "ordered b"
  shows "ordered b'"
  using assms(2) by (simp add: ordered_def MatchStep_maps [OF assms(1)] keys_map_put sorted_keys_erase)

lemma MatchLevels_ordered:
  assumes "MatchLevels bidPrice askPrice bids asks b trades = Inr (bids', asks', b', trades')"
    and "ordered b"
  shows "ordered b'"
  using assms
proof (induction bidPrice askPrice bids asks b trades rule: MatchLevels.induct)
  case (1 bidPrice askPrice bids asks b trades)
  show ?case
  proof (cases "bids \<noteq> [] \<and> asks \<noteq> []")
    case False
    with "1.prems" show ?thesis by (subst (asm) MatchLevels.simps) auto
  next
    case True
    obtain bids1 asks1 b1 t where
      step: "MatchStep bidPrice askPrice bids asks b = Inr (bids1, asks1, b1, t)"
      using MatchStep_no_error [of bidPrice askPrice bids asks b]
      by (cases "MatchStep bidPrice askPrice bids asks b") auto
    have rest: "MatchLevels bidPrice askPrice bids1 asks1 b1 (trades @ [t]) =
            Inr (bids', asks', b', trades')"
      using "1.prems"(1) True step by (subst (asm) MatchLevels.simps) simp
    from "1.IH" [OF True step refl refl refl rest MatchStep_ordered [OF step "1.prems"(2)]]
    show ?thesis .
  qed
qed

lemma ordered_dispose: "ordered (dispose_ask asks (dispose_bid bids b)) = ordered b"
  by (simp add: ordered_def dispose_maps)

lemma MatchLoop_ordered:
  assumes "MatchLoop b trades = Some r"
  shows "ordered b \<longrightarrow> (\<forall>b' trades'. r = Inr (b', trades') \<longrightarrow> ordered b')"
proof (rule MatchLoop.raw_induct
        [where P = "\<lambda>b trades r. ordered b \<longrightarrow> (\<forall>b' trades'. r = Inr (b', trades') \<longrightarrow> ordered b')",
         OF _ assms])
  fix f b trades r
  assume IH: "\<And>b trades r. f b trades = Some r \<Longrightarrow>
                ordered b \<longrightarrow> (\<forall>b' trades'. r = Inr (b', trades') \<longrightarrow> ordered b')"
    and eq: "(if asks_map b = [] \<or> bids_map b = [] then Some (Inr (b, trades))
      else if fst (hd (bids_map b)) <s fst (hd (asks_map b)) then Some (Inr (b, trades))
      else
        (case MatchLevels (fst (hd (bids_map b))) (fst (hd (asks_map b)))
                (snd (hd (bids_map b))) (snd (hd (asks_map b))) b trades of
           Inl e \<Rightarrow> Some (Inl e)
         | Inr (bids, asks, b', trades') \<Rightarrow>
             f (dispose_ask asks (dispose_bid bids b')) trades')) = Some r"
  show "ordered b \<longrightarrow> (\<forall>b' trades'. r = Inr (b', trades') \<longrightarrow> ordered b')"
    using eq
    by (auto split: if_splits sum.splits dest!: IH simp: ordered_dispose dest: MatchLevels_ordered)
qed

lemma ordered_insert_order: "ordered b \<Longrightarrow> ordered (insert_order b x)"
  by (simp add: insert_order_def Let_def ordered_def level_push_back_def keys_map_put
      sorted_bids_subscript sorted_asks_subscript)

lemma ordered_CancelOrder: "ordered b \<Longrightarrow> ordered (CancelOrder b k)"
  by (auto simp: CancelOrder_def Let_def ordered_def keys_map_put sorted_keys_erase
      sorted_bids_subscript sorted_asks_subscript split: option.splits)

lemma AddOrder_ordered:
  "ordered b \<Longrightarrow> AddOrder b x = Some (Inr (b', trades)) \<Longrightarrow> ordered b'"
  using MatchLoop_ordered [of "insert_order b x" "[]" "Inr (b', trades)"]
  by (auto simp: AddOrder_def MatchOrders_def ordered_insert_order split: if_splits)

lemma ModifyOrder_ordered:
  assumes "ordered b" and "ModifyOrder b m = Some (Inr (b', trades))"
  shows "ordered b'"
proof (cases "orders_map b (GetModifyOrderId m)")
  case None
  with assms show ?thesis by (simp add: ModifyOrder_def)
next
  case (Some existing)
  let ?c = "CancelOrder b (GetModifyOrderId m)"
  let ?x = "ToOrderPointer m (GetOrderType (order existing))"
  have oc: "ordered ?c" using assms(1) by (rule ordered_CancelOrder)
  from assms(2) Some obtain b1 dropped where
    a: "AddOrder ?c ?x = Some (Inr (b1, dropped))" and m: "MatchLoop b1 [] = Some (Inr (b', trades))"
    by (auto simp: ModifyOrder_def MatchOrders_def split: option.splits sum.splits)
  from AddOrder_ordered [OF oc a] have "ordered b1" .
  with MatchLoop_ordered [OF m] show ?thesis by simp
qed

lemma call_ordered: "ordered b \<Longrightarrow> call b c = Some (Inr (b', trades)) \<Longrightarrow> ordered b'"
  by (cases c) (auto dest: AddOrder_ordered ModifyOrder_ordered simp: ordered_CancelOrder)

lemma run_ordered: "ordered b \<Longrightarrow> run b cs = Some (b', rs) \<Longrightarrow> ordered b'"
proof (induction cs arbitrary: b rs)
  case Nil
  then show ?case by simp
next
  case (Cons c cs)
  from Cons.prems(2) obtain b1 trades rest where
    c: "call b c = Some (Inr (b1, trades))" and r: "run b1 cs = Some (b', rest)"
    by (auto split: option.splits sum.splits)
  from Cons.IH [OF call_ordered [OF Cons.prems(1) c] r] show ?case .
qed

lemma reachable_ordered: "reachable b \<Longrightarrow> ordered b"
  unfolding reachable_def
  using run_ordered [of empty_book] by (auto simp: ordered_def empty_book_def)

text \<open>In a reachable book the head of each side is its best price.\<close>

lemma head_is_best:
  assumes "reachable b"
  shows "(p, q) \<in> set (bids_map b) \<Longrightarrow> p \<le>s fst (hd (bids_map b))"
    and "(p, q) \<in> set (asks_map b) \<Longrightarrow> fst (hd (asks_map b)) \<le>s p"
proof -
  from reachable_ordered [OF assms]
  have sb: "sorted_wrt std_greater (map fst (bids_map b))"
    and sa: "sorted_wrt std_less (map fst (asks_map b))"
    by (simp_all add: ordered_def)
  show "(p, q) \<in> set (bids_map b) \<Longrightarrow> p \<le>s fst (hd (bids_map b))"
    using sb by (cases "bids_map b") (auto simp: std_greater_def word_sle_eq word_sless_alt)
  show "(p, q) \<in> set (asks_map b) \<Longrightarrow> fst (hd (asks_map b)) \<le>s p"
    using sa by (cases "asks_map b") (auto simp: std_less_def word_sle_eq word_sless_alt)
qed


subsection \<open>Invariants of the two loops\<close>

text \<open>
  What every run of the loop body keeps holds after the inner loop; what every pass of
  the outer loop keeps holds when \<^verbatim>\<open>MatchOrders\<close> returns.
\<close>

lemma MatchLevels_invariant:
  assumes "MatchLevels bidPrice askPrice bids asks b trades = Inr (bids', asks', b', trades')"
    and "J bidPrice askPrice bids asks b"
    and step: "\<And>bidPrice askPrice bids asks b bids1 asks1 b1 t.
      J bidPrice askPrice bids asks b \<Longrightarrow> bids \<noteq> [] \<Longrightarrow> asks \<noteq> [] \<Longrightarrow>
      MatchStep bidPrice askPrice bids asks b = Inr (bids1, asks1, b1, t) \<Longrightarrow>
      J bidPrice askPrice bids1 asks1 b1"
  shows "J bidPrice askPrice bids' asks' b'"
  using assms(1,2)
proof (induction bidPrice askPrice bids asks b trades rule: MatchLevels.induct)
  case (1 bidPrice askPrice bids asks b trades)
  show ?case
  proof (cases "bids \<noteq> [] \<and> asks \<noteq> []")
    case False
    with "1.prems" show ?thesis by (subst (asm) MatchLevels.simps) auto
  next
    case True
    obtain bids1 asks1 b1 t where
      s: "MatchStep bidPrice askPrice bids asks b = Inr (bids1, asks1, b1, t)"
      using MatchStep_no_error [of bidPrice askPrice bids asks b]
      by (cases "MatchStep bidPrice askPrice bids asks b") auto
    have rest: "MatchLevels bidPrice askPrice bids1 asks1 b1 (trades @ [t]) =
            Inr (bids', asks', b', trades')"
      using "1.prems"(1) True s by (subst (asm) MatchLevels.simps) simp
    from True have ne: "bids \<noteq> []" "asks \<noteq> []" by simp_all
    from "1.IH" [OF True s refl refl refl rest step [OF "1.prems"(2) ne s]] show ?thesis .
  qed
qed

lemma MatchLoop_invariant:
  assumes "MatchLoop b trades = Some (Inr (b', trades'))" and "I b"
    and pass: "\<And>b trades bids asks b1 trades1.
      I b \<Longrightarrow> bids_map b \<noteq> [] \<Longrightarrow> asks_map b \<noteq> [] \<Longrightarrow>
      MatchLevels (fst (hd (bids_map b))) (fst (hd (asks_map b)))
        (snd (hd (bids_map b))) (snd (hd (asks_map b))) b trades = Inr (bids, asks, b1, trades1) \<Longrightarrow>
      I (dispose_ask asks (dispose_bid bids b1))"
  shows "I b'"
proof -
  have "I b \<longrightarrow> (\<forall>c ts. (Inr (b', trades') :: error + OrderBook \<times> Trades) = Inr (c, ts) \<longrightarrow> I c)"
  proof (rule MatchLoop.raw_induct
        [where P = "\<lambda>b trades r. I b \<longrightarrow> (\<forall>c ts. r = Inr (c, ts) \<longrightarrow> I c)", OF _ assms(1)])
    fix f b trades r
    assume IH: "\<And>b trades r. f b trades = Some r \<Longrightarrow> I b \<longrightarrow> (\<forall>c ts. r = Inr (c, ts) \<longrightarrow> I c)"
      and eq: "(if asks_map b = [] \<or> bids_map b = [] then Some (Inr (b, trades))
        else if fst (hd (bids_map b)) <s fst (hd (asks_map b)) then Some (Inr (b, trades))
        else
          (case MatchLevels (fst (hd (bids_map b))) (fst (hd (asks_map b)))
                  (snd (hd (bids_map b))) (snd (hd (asks_map b))) b trades of
             Inl e \<Rightarrow> Some (Inl e)
           | Inr (bids, asks, b', trades') \<Rightarrow>
               f (dispose_ask asks (dispose_bid bids b')) trades')) = Some r"
    show "I b \<longrightarrow> (\<forall>c ts. r = Inr (c, ts) \<longrightarrow> I c)"
      using eq by (auto split: if_splits sum.splits dest!: IH dest: pass)
  qed
  with assms(2) show ?thesis by simp
qed

lemma map_put_absent: "p \<notin> fst ` set m \<Longrightarrow> map_put m p q = m"
  by (induction m) (auto simp: map_put_def)

lemma map_erase_absent: "p \<notin> fst ` set m \<Longrightarrow> map_erase m p = m"
  by (induction m) (auto simp: map_erase_def)

lemma ordered_head_keys:
  assumes "ordered b"
  shows "bids_map b = (p, q) # bm \<Longrightarrow> p \<notin> fst ` set bm"
    and "asks_map b = (p, q) # am \<Longrightarrow> p \<notin> fst ` set am"
  using assms by (auto simp: ordered_def std_greater_def std_less_def)

text \<open>The result of the loop body on the heads of the two best levels, written out.\<close>

lemma MatchStep_heads:
  assumes "bids_map b = (bidPrice, (bl, bid) # bids) # bm"
    and "asks_map b = (askPrice, (al, ask) # asks) # am"
    and "bidPrice \<notin> fst ` set bm" and "askPrice \<notin> fst ` set am"
  shows "MatchStep bidPrice askPrice ((bl, bid) # bids) ((al, ask) # asks) b =
     (let quantity = std_min (GetRemainingQuantity bid) (GetRemainingQuantity ask);
          bids' = (if GetRemainingQuantity bid = quantity then bids
                   else (bl, bid\<lparr>GetRemainingQuantity := GetRemainingQuantity bid - quantity\<rparr>) # bids);
          asks' = (if GetRemainingQuantity ask = quantity then asks
                   else (al, ask\<lparr>GetRemainingQuantity := GetRemainingQuantity ask - quantity\<rparr>) # asks);
          orders1 = (if GetRemainingQuantity bid = quantity
                     then (orders_map b)(GetOrderId bid := None) else orders_map b);
          orders2 = (if GetRemainingQuantity ask = quantity
                     then orders1(GetOrderId ask := None) else orders1)
      in Inr (bids', asks',
              b\<lparr>bids_map := (if bids' = [] then bm else (bidPrice, bids') # bm),
                asks_map := (if asks' = [] then am else (askPrice, asks') # am),
                orders_map := orders2\<rparr>,
              \<lparr>bidTrade = \<lparr>orderId = GetOrderId bid, price = GetPrice bid, quantity = quantity\<rparr>,
               askTrade = \<lparr>orderId = GetOrderId ask, price = GetPrice ask, quantity = quantity\<rparr>\<rparr>))"
  using assms
  by (simp add: MatchStep_eq Let_def isFilled_def map_put_def map_erase_def
      map_put_absent [unfolded map_put_def] map_erase_absent [unfolded map_erase_def])


subsection \<open>First in, first out\<close>

lemma fifo_levels_iff: "fifo_levels n m \<longleftrightarrow> (\<forall>k v. (k, v) \<in> set m \<longrightarrow> fifo_queue n v)"
  by (auto simp: fifo_levels_def list_all_iff)

lemma fifo_levels_erase: "fifo_levels n m \<Longrightarrow> fifo_levels n (map_erase m p)"
  by (auto simp: fifo_levels_iff in_map_erase)

lemma fifo_levels_put: "fifo_levels n m \<Longrightarrow> fifo_queue n q \<Longrightarrow> fifo_levels n (map_put m p q)"
  by (auto simp: fifo_levels_iff dest: in_map_put)

lemma fifo_levels_subscript: "fifo_levels n m \<Longrightarrow> fifo_levels n (map_subscript cmp m p)"
  by (auto simp: fifo_levels_iff fifo_queue_def dest: in_map_subscript)

lemma fifo_queue_get: "fifo_levels n m \<Longrightarrow> fifo_queue n (map_get m p)"
  by (auto simp: fifo_levels_iff map_get_def fifo_queue_def split: option.splits
      dest!: map_of_SomeD)

lemma fifo_queue_erase: "fifo_queue n q \<Longrightarrow> fifo_queue n (list_erase q l)"
proof -
  have "map fst (list_erase q l) = filter (\<lambda>h. h \<noteq> l) (map fst q)"
    by (induction q) (auto simp: list_erase_def)
  then show "fifo_queue n q \<Longrightarrow> fifo_queue n (list_erase q l)"
    by (auto simp: fifo_queue_def sorted_wrt_filter list_all_iff)
qed

lemma fifo_queue_Suc: "fifo_queue n q \<Longrightarrow> fifo_queue (Suc n) q"
  by (auto simp: fifo_queue_def list_all_iff)

lemma fifo_levels_Suc: "fifo_levels n m \<Longrightarrow> fifo_levels (Suc n) m"
  by (auto simp: fifo_levels_iff fifo_queue_Suc)

lemma fifo_queue_push_back: "fifo_queue n q \<Longrightarrow> fifo_queue (Suc n) (q @ [(n, x)])"
  by (auto simp: fifo_queue_def list_all_iff sorted_wrt_append)

lemma fifo_levels_push_back:
  "fifo_levels n m \<Longrightarrow> fifo_levels (Suc n) (level_push_back cmp m p (n, x))"
  by (simp add: level_push_back_def Let_def fifo_levels_put fifo_levels_Suc
      fifo_levels_subscript fifo_queue_push_back fifo_queue_get)

lemma fifo_insert_order: "fifo b \<Longrightarrow> fifo (insert_order b x)"
  by (simp add: insert_order_def Let_def fifo_def fifo_levels_push_back fifo_levels_Suc)

lemma fifo_CancelOrder: "fifo b \<Longrightarrow> fifo (CancelOrder b k)"
  by (auto simp: CancelOrder_def Let_def fifo_def fifo_levels_put fifo_levels_erase
      fifo_levels_subscript fifo_queue_erase fifo_queue_get split: option.splits)

lemma MatchStep_allocated:
  "MatchStep bidPrice askPrice bids asks b = Inr (bids', asks', b', t) \<Longrightarrow> allocated b' = allocated b"
  by (auto simp: MatchStep_eq Let_def)

lemma MatchStep_fifo:
  assumes step: "MatchStep bidPrice askPrice bids asks b = Inr (bids', asks', b', t)"
    and "fifo b \<and> fifo_queue (allocated b) bids \<and> fifo_queue (allocated b) asks"
    and "bids \<noteq> []" and "asks \<noteq> []"
  shows "fifo b' \<and> fifo_queue (allocated b') bids' \<and> fifo_queue (allocated b') asks'"
proof -
  obtain n1 bt where bids: "bids = n1 # bt" using assms(3) by (cases bids) auto
  obtain n2 at where asks: "asks = n2 # at" using assms(4) by (cases asks) auto
  have hb: "map fst bids' = map fst bids \<or> map fst bids' = tl (map fst bids)"
    and ha: "map fst asks' = map fst asks \<or> map fst asks' = tl (map fst asks)"
    using step by (auto simp: MatchStep_eq Let_def bids asks split: if_splits)
  have tl_ok: "sorted_wrt (<) xs \<and> list_all (\<lambda>l. l < n) xs \<Longrightarrow>
        sorted_wrt (<) (tl xs) \<and> list_all (\<lambda>l. l < n) (tl xs)" for xs :: "nat list" and n
    by (cases xs) auto
  have q: "fifo_queue (allocated b) bids'" "fifo_queue (allocated b) asks'"
    using assms(2) hb ha tl_ok [of "map fst bids" "allocated b"] tl_ok [of "map fst asks" "allocated b"]
    by (auto simp: fifo_queue_def)
  moreover have "fifo b'"
    using MatchStep_maps [OF step] MatchStep_allocated [OF step] assms(2) q
    by (simp add: fifo_def fifo_levels_erase fifo_levels_put)
  ultimately show ?thesis by (simp add: MatchStep_allocated [OF step])
qed

lemma dispose_allocated: "allocated (dispose_ask asks (dispose_bid bids b)) = allocated b"
  by (simp add: dispose_bid_eq dispose_ask_eq dispose_bid_2_def dispose_ask_2_def Let_def)

lemma fifo_dispose: "fifo (dispose_ask asks (dispose_bid bids b)) = fifo b"
  by (simp add: fifo_def dispose_maps dispose_allocated)

lemma fifo_head_queues:
  "fifo b \<Longrightarrow> bids_map b \<noteq> [] \<Longrightarrow> asks_map b \<noteq> [] \<Longrightarrow>
     fifo_queue (allocated b) (snd (hd (bids_map b))) \<and> fifo_queue (allocated b) (snd (hd (asks_map b)))"
  by (cases "bids_map b"; cases "asks_map b") (auto simp: fifo_def fifo_levels_def)

lemma MatchLoop_fifo:
  assumes "MatchLoop b trades = Some (Inr (b', trades'))" and "fifo b"
  shows "fifo b'"
proof (rule MatchLoop_invariant [where I = fifo, OF assms])
  fix b trades bids asks b1 trades1
  assume f: "fifo b" and ne: "bids_map b \<noteq> []" "asks_map b \<noteq> []"
    and lv: "MatchLevels (fst (hd (bids_map b))) (fst (hd (asks_map b)))
        (snd (hd (bids_map b))) (snd (hd (asks_map b))) b trades = Inr (bids, asks, b1, trades1)"
  have "fifo b1 \<and> fifo_queue (allocated b1) bids \<and> fifo_queue (allocated b1) asks"
    by (rule MatchLevels_invariant
          [where J = "\<lambda>bp ap bids asks b. fifo b \<and> fifo_queue (allocated b) bids
                        \<and> fifo_queue (allocated b) asks", OF lv])
       (use f ne fifo_head_queues in simp, rule MatchStep_fifo)
  then show "fifo (dispose_ask asks (dispose_bid bids b1))" by (simp add: fifo_dispose)
qed

lemma AddOrder_fifo: "fifo b \<Longrightarrow> AddOrder b x = Some (Inr (b', trades)) \<Longrightarrow> fifo b'"
  using MatchLoop_fifo [of "insert_order b x" "[]" b' trades]
  by (auto simp: AddOrder_def MatchOrders_def fifo_insert_order split: if_splits)

lemma ModifyOrder_fifo:
  assumes "fifo b" and "ModifyOrder b m = Some (Inr (b', trades))"
  shows "fifo b'"
proof (cases "orders_map b (GetModifyOrderId m)")
  case None
  with assms show ?thesis by (simp add: ModifyOrder_def)
next
  case (Some existing)
  let ?c = "CancelOrder b (GetModifyOrderId m)"
  let ?x = "ToOrderPointer m (GetOrderType (order existing))"
  have fc: "fifo ?c" using assms(1) by (rule fifo_CancelOrder)
  from assms(2) Some obtain b1 dropped where
    a: "AddOrder ?c ?x = Some (Inr (b1, dropped))" and m: "MatchLoop b1 [] = Some (Inr (b', trades))"
    by (auto simp: ModifyOrder_def MatchOrders_def split: option.splits sum.splits)
  from MatchLoop_fifo [OF m AddOrder_fifo [OF fc a]] show ?thesis .
qed

lemma call_fifo: "fifo b \<Longrightarrow> call b c = Some (Inr (b', trades)) \<Longrightarrow> fifo b'"
  by (cases c) (auto dest: AddOrder_fifo ModifyOrder_fifo simp: fifo_CancelOrder)

lemma run_fifo: "fifo b \<Longrightarrow> run b cs = Some (b', rs) \<Longrightarrow> fifo b'"
proof (induction cs arbitrary: b rs)
  case Nil
  then show ?case by simp
next
  case (Cons c cs)
  from Cons.prems(2) obtain b1 trades rest where
    c: "call b c = Some (Inr (b1, trades))" and r: "run b1 cs = Some (b', rest)"
    by (auto split: option.splits sum.splits)
  from Cons.IH [OF call_fifo [OF Cons.prems(1) c] r] show ?case .
qed

lemma reachable_fifo: "reachable b \<Longrightarrow> fifo b"
  unfolding reachable_def
  using run_fifo [of empty_book] by (auto simp: fifo_def fifo_levels_def empty_book_def)

text \<open>The head of a queue of a reachable book was created before every other node of it.\<close>

lemma head_is_oldest:
  assumes "reachable b"
  shows "bids_map b = (p, (l, x) # q) # bm \<Longrightarrow> \<forall>n \<in> set q. l < fst n"
    and "asks_map b = (p, (l, x) # q) # am \<Longrightarrow> \<forall>n \<in> set q. l < fst n"
  using reachable_fifo [OF assms] by (auto simp: fifo_def fifo_levels_def fifo_queue_def)

lemma map_get_put: "p \<in> fst ` set m \<Longrightarrow> map_get (map_put m p q) p = q"
  by (induction m) (auto simp: map_get_def map_put_def)

lemma subscript_has_key: "p \<in> fst ` set (map_subscript cmp m p)"
  by (induction cmp m p rule: map_subscript.induct) auto

lemma map_get_subscript:
  assumes asym: "\<And>x y. cmp x y \<Longrightarrow> \<not> cmp y x"
  shows "sorted_wrt cmp (map fst m) \<Longrightarrow> map_get (map_subscript cmp m p) p = map_get m p"
proof (induction m)
  case Nil
  then show ?case by (simp add: map_get_def)
next
  case (Cons kq m)
  obtain k q where kq: "kq = (k, q)" by (cases kq)
  from Cons.prems have below: "\<forall>k' \<in> fst ` set m. cmp k k'" and rest: "sorted_wrt cmp (map fst m)"
    by (simp_all add: kq)
  show ?case
  proof (cases "k = p")
    case True
    then show ?thesis by (simp add: kq)
  next
    case False
    show ?thesis
    proof (cases "cmp p k")
      case True
      have "p \<notin> fst ` set m" using below asym [OF True] by blast
      then have "map_of m p = None" by (simp add: map_of_eq_None_iff)
      with False True show ?thesis by (simp add: kq map_get_def)
    next
      case notless: False
      with False Cons.IH [OF rest] show ?thesis by (simp add: kq map_get_def)
    qed
  qed
qed

text \<open>\<^verbatim>\<open>AddOrder\<close> puts the new order behind the orders of its price level.\<close>

lemma insert_order_at_tail:
  assumes "ordered b"
  shows "GetSide x = Buy \<Longrightarrow>
           map_get (bids_map (insert_order b x)) (GetPrice x) =
             map_get (bids_map b) (GetPrice x) @ [(allocated b, x)]"
    and "GetSide x = Sell \<Longrightarrow>
           map_get (asks_map (insert_order b x)) (GetPrice x) =
             map_get (asks_map b) (GetPrice x) @ [(allocated b, x)]"
proof -
  have g: "map_get (map_subscript std_greater (bids_map b) p) p = map_get (bids_map b) p" for p
    using assms by (intro map_get_subscript) (auto simp: ordered_def std_greater_def)
  have l: "map_get (map_subscript std_less (asks_map b) p) p = map_get (asks_map b) p" for p
    using assms by (intro map_get_subscript) (auto simp: ordered_def std_less_def)
  show "GetSide x = Buy \<Longrightarrow>
           map_get (bids_map (insert_order b x)) (GetPrice x) =
             map_get (bids_map b) (GetPrice x) @ [(allocated b, x)]"
    by (simp add: insert_order_def Let_def level_push_back_def map_get_put subscript_has_key g)
  show "GetSide x = Sell \<Longrightarrow>
           map_get (asks_map (insert_order b x)) (GetPrice x) =
             map_get (asks_map b) (GetPrice x) @ [(allocated b, x)]"
    by (simp add: insert_order_def Let_def level_push_back_def map_get_put subscript_has_key l)
qed


subsection \<open>Two sell orders at one price\<close>

lemma run_book_two_asks:
  "run empty_book [Submit 1 GoodTillCancel 5 100 Sell, Submit 3 GoodTillCancel 7 100 Sell] =
     Some (book_two_asks, [[], []])"
  by (simp add: engine_defs book_two_asks_def)

lemma call_book_two_asks:
  "call book_two_asks (Submit 2 GoodTillCancel 4 100 Buy) =
     Some (Inr (book_two_asks_hit,
                [\<lparr>bidTrade = \<lparr>orderId = 2, price = 100, quantity = 4\<rparr>,
                  askTrade = \<lparr>orderId = 1, price = 100, quantity = 4\<rparr>\<rparr>]))"
  by (simp add: engine_defs book_two_asks_def book_two_asks_hit_def fun_upd_twist)


subsection \<open>The heads that the loop body fills\<close>

lemma allocated_insert_order: "allocated (insert_order b x) = Suc (allocated b)"
  by (simp add: insert_order_def Let_def)

text \<open>
  Claim C5. When the best bid price is not below the best ask price, the body of the
  inner loop takes the head of the best bid level and the head of the best ask level.
  The head is the oldest order of its queue: \<^verbatim>\<open>AddOrder\<close> puts a new order, with the
  next handle, behind the orders of its level, and in every queue the handles rise
  from the head. The body takes from the remaining quantity of both heads the smaller
  of the two; in the queues and in the book an order whose remaining quantity becomes 0
  is gone, with its index entry, and a level whose queue becomes empty is gone, and
  otherwise the order stays at the head with what remains. The trade appended has each
  order's identifier and own price and that quantity, and is the next one in what
  \<^verbatim>\<open>MatchOrders\<close> returns. Scenario B: after a GoodTillCancel sell order 1 of quantity 5
  at 100, a GoodTillCancel buy order 2 of quantity 10 at 101 returns one trade of
  quantity 5 with bid price 101 and ask price 100, order 1 is gone and order 2 is in the
  queue of price 101 with 5 remaining.
\<close>

theorem MatchStep_fills_heads:
  assumes "bids_map b = (bidPrice, (bl, bid) # bids) # bm"
    and "asks_map b = (askPrice, (al, ask) # asks) # am"
    and "\<not> bidPrice <s askPrice"
    and "ordered b" and "fifo b"
  shows
    "MatchStep bidPrice askPrice ((bl, bid) # bids) ((al, ask) # asks) b =
       (let quantity = std_min (GetRemainingQuantity bid) (GetRemainingQuantity ask);
            bids' = (if GetRemainingQuantity bid = quantity then bids
                     else (bl, bid\<lparr>GetRemainingQuantity := GetRemainingQuantity bid - quantity\<rparr>) # bids);
            asks' = (if GetRemainingQuantity ask = quantity then asks
                     else (al, ask\<lparr>GetRemainingQuantity := GetRemainingQuantity ask - quantity\<rparr>) # asks);
            orders1 = (if GetRemainingQuantity bid = quantity
                       then (orders_map b)(GetOrderId bid := None) else orders_map b);
            orders2 = (if GetRemainingQuantity ask = quantity
                       then orders1(GetOrderId ask := None) else orders1)
        in Inr (bids', asks',
                b\<lparr>bids_map := (if bids' = [] then bm else (bidPrice, bids') # bm),
                  asks_map := (if asks' = [] then am else (askPrice, asks') # am),
                  orders_map := orders2\<rparr>,
                \<lparr>bidTrade = \<lparr>orderId = GetOrderId bid, price = GetPrice bid, quantity = quantity\<rparr>,
                 askTrade = \<lparr>orderId = GetOrderId ask, price = GetPrice ask, quantity = quantity\<rparr>\<rparr>))
     \<and> sint (std_min (GetRemainingQuantity bid) (GetRemainingQuantity ask)) =
         min (sint (GetRemainingQuantity bid)) (sint (GetRemainingQuantity ask))
     \<and> (\<forall>n \<in> set bids. bl < fst n) \<and> (\<forall>n \<in> set asks. al < fst n)
     \<and> (\<forall>bids' asks' b' t. MatchStep bidPrice askPrice ((bl, bid) # bids) ((al, ask) # asks) b =
            Inr (bids', asks', b', t) \<longrightarrow> ordered b' \<and> fifo b')
     \<and> (\<forall>bfin out. MatchLoop b trades = Some (Inr (bfin, out)) \<longrightarrow>
          (\<exists>more. out = trades @
             \<lparr>bidTrade = \<lparr>orderId = GetOrderId bid, price = GetPrice bid,
                quantity = std_min (GetRemainingQuantity bid) (GetRemainingQuantity ask)\<rparr>,
              askTrade = \<lparr>orderId = GetOrderId ask, price = GetPrice ask,
                quantity = std_min (GetRemainingQuantity bid) (GetRemainingQuantity ask)\<rparr>\<rparr> # more))
     \<and> (GetSide x = Buy \<longrightarrow>
          map_get (bids_map (insert_order b x)) (GetPrice x) =
            map_get (bids_map b) (GetPrice x) @ [(allocated b, x)])
     \<and> (GetSide x = Sell \<longrightarrow>
          map_get (asks_map (insert_order b x)) (GetPrice x) =
            map_get (asks_map b) (GetPrice x) @ [(allocated b, x)])
     \<and> allocated (insert_order b x) = Suc (allocated b)
     \<and> (reachable c \<longrightarrow>
          ordered c \<and> fifo c \<and> ordered (insert_order c x) \<and> fifo (insert_order c x))
     \<and> run empty_book [Submit 1 GoodTillCancel 5 100 Sell, Submit 2 GoodTillCancel 10 101 Buy] =
         Some (\<lparr>bids_map = [(101, [(1, \<lparr>GetOrderId = 2, GetOrderType = GoodTillCancel,
                                         GetInitialQuantity = 10, GetRemainingQuantity = 5,
                                         GetPrice = 101, GetSide = Buy\<rparr>)])],
                 asks_map = [], orders_map = Map.empty, allocated = 2\<rparr>,
               [[], [\<lparr>bidTrade = \<lparr>orderId = 2, price = 101, quantity = 5\<rparr>,
                      askTrade = \<lparr>orderId = 1, price = 100, quantity = 5\<rparr>\<rparr>]])"
    (is "?step \<and> ?min \<and> ?oldb \<and> ?olda \<and> ?keep \<and> ?loop \<and> ?tailb \<and> ?taila \<and> ?count \<and> ?reach
         \<and> ?scenario")
proof -
  let ?t = "\<lparr>bidTrade = \<lparr>orderId = GetOrderId bid, price = GetPrice bid,
                quantity = std_min (GetRemainingQuantity bid) (GetRemainingQuantity ask)\<rparr>,
              askTrade = \<lparr>orderId = GetOrderId ask, price = GetPrice ask,
                quantity = std_min (GetRemainingQuantity bid) (GetRemainingQuantity ask)\<rparr>\<rparr>"
  have step: ?step
    using MatchStep_heads [OF assms(1,2) ordered_head_keys(1) [OF assms(4,1)]
        ordered_head_keys(2) [OF assms(4,2)]] .
  have old: "?oldb \<and> ?olda"
    using assms(1,2,5) by (auto simp: fifo_def fifo_levels_def fifo_queue_def)
  have fq: "fifo b \<and> fifo_queue (allocated b) ((bl, bid) # bids)
            \<and> fifo_queue (allocated b) ((al, ask) # asks)"
    using assms(1,2,5) by (simp add: fifo_def fifo_levels_def)
  have keep: ?keep
    using MatchStep_ordered [OF _ assms(4)] MatchStep_fifo [OF _ fq] by blast
  have loop: ?loop
  proof (intro allI impI)
    fix bfin out
    assume r: "MatchLoop b trades = Some (Inr (bfin, out))"
    obtain B A b1 where
      b1: "MatchStep bidPrice askPrice ((bl, bid) # bids) ((al, ask) # asks) b = Inr (B, A, b1, ?t)"
      by (simp add: MatchStep_eq Let_def)
    obtain bids2 asks2 b2 trades2 where
      lv: "MatchLevels bidPrice askPrice B A b1 (trades @ [?t]) = Inr (bids2, asks2, b2, trades2)"
      using MatchLevels_no_error [of bidPrice askPrice B A b1 "trades @ [?t]"]
      by (cases "MatchLevels bidPrice askPrice B A b1 (trades @ [?t])") auto
    have "MatchLevels bidPrice askPrice ((bl, bid) # bids) ((al, ask) # asks) b trades =
            Inr (bids2, asks2, b2, trades2)"
      by (subst MatchLevels.simps) (simp add: b1 lv)
    with r assms(1-3) have "MatchLoop (dispose_ask asks2 (dispose_bid bids2 b2)) trades2 =
        Some (Inr (bfin, out))"
      by (subst (asm) MatchLoop.simps) simp
    from MatchLoop_trades [OF this] obtain m2 where "out = trades2 @ m2" by blast
    moreover from MatchLevels_trades [OF lv] obtain m1 where "trades2 = (trades @ [?t]) @ m1"
      by blast
    ultimately have "out = trades @ ?t # (m1 @ m2)" by simp
    then show "\<exists>more. out = trades @ ?t # more" ..
  qed
  have tail: "?tailb \<and> ?taila \<and> ?count"
    using insert_order_at_tail [OF assms(4), of x] by (simp add: allocated_insert_order)
  have reach: ?reach
    by (simp add: reachable_ordered reachable_fifo ordered_insert_order fifo_insert_order)
  have ?scenario by (simp add: engine_defs)
  with step old keep loop tail reach show ?thesis by (simp add: sint_std_min)
qed


theorem MatchStep_fills_heads_witness:
  "bids_map (insert_order book_two_asks (Order_new 2 GoodTillCancel 4 100 Buy)) =
     [(100, [(2, Order_new 2 GoodTillCancel 4 100 Buy)])]
   \<and> asks_map (insert_order book_two_asks (Order_new 2 GoodTillCancel 4 100 Buy)) =
     [(100, [(0, Order_new 1 GoodTillCancel 5 100 Sell),
             (1, Order_new 3 GoodTillCancel 7 100 Sell)])]
   \<and> \<not> (100 :: Price) <s 100
   \<and> ordered (insert_order book_two_asks (Order_new 2 GoodTillCancel 4 100 Buy))
   \<and> fifo (insert_order book_two_asks (Order_new 2 GoodTillCancel 4 100 Buy))
   \<and> MatchStep 100 100 [(2, Order_new 2 GoodTillCancel 4 100 Buy)]
        [(0, Order_new 1 GoodTillCancel 5 100 Sell), (1, Order_new 3 GoodTillCancel 7 100 Sell)]
        (insert_order book_two_asks (Order_new 2 GoodTillCancel 4 100 Buy)) =
      Inr ([],
           [(0, \<lparr>GetOrderId = 1, GetOrderType = GoodTillCancel, GetInitialQuantity = 5,
                  GetRemainingQuantity = 1, GetPrice = 100, GetSide = Sell\<rparr>),
            (1, Order_new 3 GoodTillCancel 7 100 Sell)],
           (insert_order book_two_asks (Order_new 2 GoodTillCancel 4 100 Buy))
             \<lparr>bids_map := [],
              asks_map := [(100, [(0, \<lparr>GetOrderId = 1, GetOrderType = GoodTillCancel,
                                       GetInitialQuantity = 5, GetRemainingQuantity = 1,
                                       GetPrice = 100, GetSide = Sell\<rparr>),
                                  (1, Order_new 3 GoodTillCancel 7 100 Sell)])],
              orders_map :=
                (orders_map (insert_order book_two_asks (Order_new 2 GoodTillCancel 4 100 Buy)))
                  (2 := None)\<rparr>,
           \<lparr>bidTrade = \<lparr>orderId = 2, price = 100, quantity = 4\<rparr>,
            askTrade = \<lparr>orderId = 1, price = 100, quantity = 4\<rparr>\<rparr>)
   \<and> (0 :: nat) < 1
   \<and> MatchLoop (insert_order book_two_asks (Order_new 2 GoodTillCancel 4 100 Buy)) [] =
       Some (Inr (book_two_asks_hit,
                  [\<lparr>bidTrade = \<lparr>orderId = 2, price = 100, quantity = 4\<rparr>,
                    askTrade = \<lparr>orderId = 1, price = 100, quantity = 4\<rparr>\<rparr>]))"
proof -
  let ?b = "insert_order book_two_asks (Order_new 2 GoodTillCancel 4 100 Buy)"
  have 1: "bids_map ?b = (100, (2, Order_new 2 GoodTillCancel 4 100 Buy) # []) # []"
    by (simp add: engine_defs book_two_asks_def)
  have 2: "asks_map ?b = (100, (0, Order_new 1 GoodTillCancel 5 100 Sell)
                                 # [(1, Order_new 3 GoodTillCancel 7 100 Sell)]) # []"
    by (simp add: engine_defs book_two_asks_def)
  have 3: "\<not> (100 :: Price) <s 100" by simp
  have 4: "ordered ?b" by (simp add: ordered_def 1 2)
  have 5: "fifo ?b"
    unfolding fifo_def 1 2 allocated_insert_order
    by (simp add: fifo_levels_def fifo_queue_def book_two_asks_def)
  have 6: "MatchLoop ?b [] =
       Some (Inr (book_two_asks_hit,
                  [\<lparr>bidTrade = \<lparr>orderId = 2, price = 100, quantity = 4\<rparr>,
                    askTrade = \<lparr>orderId = 1, price = 100, quantity = 4\<rparr>\<rparr>]))"
    by (simp add: engine_defs book_two_asks_def book_two_asks_hit_def fun_upd_twist)
  from MatchStep_fills_heads [OF 1 2 3 4 5, of "[]"] 1 2 3 4 5 6 show ?thesis
    by (simp add: Order_new_def std_min_def word_sless_alt Let_def)
qed


subsection \<open>An order never gains quantity\<close>

lemma descends_refl: "descends n n"
  by (simp add: descends_def)

lemma descends_trans: "descends n2 n1 \<Longrightarrow> descends n1 n \<Longrightarrow> descends n2 n"
proof -
  assume a: "descends n2 n1" and b: "descends n1 n"
  have "snd n2 = (snd n1)\<lparr>GetRemainingQuantity := GetRemainingQuantity (snd n2)\<rparr>"
    using a by (simp add: descends_def)
  also have "snd n1 = (snd n)\<lparr>GetRemainingQuantity := GetRemainingQuantity (snd n1)\<rparr>"
    using b by (simp add: descends_def)
  finally have "snd n2 = (snd n)\<lparr>GetRemainingQuantity := GetRemainingQuantity (snd n2)\<rparr>"
    by simp
  moreover have "GetRemainingQuantity (snd n2) \<le>s GetRemainingQuantity (snd n)"
    using a b by (auto simp: descends_def word_sle_eq)
  ultimately show ?thesis using a b by (simp add: descends_def)
qed

lemma queue_from_iff:
  "queue_from a q' q \<longleftrightarrow> (\<forall>n' \<in> set q'. (\<exists>n \<in> set q. descends n' n) \<or> a \<le> fst n')"
  by (simp add: queue_from_def list_all_iff list_ex_iff)

lemma levels_from_iff:
  "levels_from a m' m \<longleftrightarrow> (\<forall>k v. (k, v) \<in> set m' \<longrightarrow> queue_from a v (map_get m k))"
  by (auto simp: levels_from_def list_all_iff)

lemma queue_from_Nil: "queue_from a [] q"
  by (simp add: queue_from_def)

lemma queue_from_step:
  assumes 1: "\<forall>n2 \<in> set q2. \<exists>n1 \<in> set q1. descends n2 n1"
    and 2: "queue_from a q1 q"
  shows "queue_from a q2 q"
  unfolding queue_from_iff
proof
  fix n2
  assume m: "n2 \<in> set q2"
  from 1 m obtain n1 where n1: "n1 \<in> set q1" "descends n2 n1" by blast
  from 2 n1(1) have "(\<exists>n \<in> set q. descends n1 n) \<or> a \<le> fst n1"
    by (simp add: queue_from_iff)
  then show "(\<exists>n \<in> set q. descends n2 n) \<or> a \<le> fst n2"
  proof
    assume "\<exists>n \<in> set q. descends n1 n"
    then show ?thesis using n1(2) descends_trans by blast
  next
    assume "a \<le> fst n1"
    then show ?thesis using n1(2) by (simp add: descends_def)
  qed
qed

lemma queue_from_subset: "set q2 \<subseteq> set q1 \<Longrightarrow> queue_from a q1 q \<Longrightarrow> queue_from a q2 q"
  by (auto simp: queue_from_iff)

lemma queue_from_get:
  assumes "levels_from a m' m"
  shows "queue_from a (map_get m' p) (map_get m p)"
proof (cases "map_of m' p")
  case None
  then show ?thesis by (simp add: map_get_def queue_from_Nil)
next
  case (Some v)
  then have "(p, v) \<in> set m'" by (rule map_of_SomeD)
  with assms have "queue_from a v (map_get m p)" by (simp add: levels_from_iff)
  with Some show ?thesis by (simp add: map_get_def [of m'])
qed

lemma levels_from_erase: "levels_from a m' m \<Longrightarrow> levels_from a (map_erase m' p) m"
  by (auto simp: levels_from_iff in_map_erase)

lemma levels_from_put:
  "levels_from a m' m \<Longrightarrow> queue_from a q (map_get m p) \<Longrightarrow> levels_from a (map_put m' p q) m"
  by (auto simp: levels_from_iff dest: in_map_put)

lemma levels_from_subscript: "levels_from a m' m \<Longrightarrow> levels_from a (map_subscript cmp m' p) m"
  by (auto simp: levels_from_iff queue_from_Nil dest: in_map_subscript)

lemma levels_from_push_back:
  assumes "levels_from a m' m" and "a \<le> l"
  shows "levels_from a (level_push_back cmp m' p (l, x)) m"
proof -
  let ?s = "map_subscript cmp m' p"
  have s: "levels_from a ?s m" using assms(1) by (rule levels_from_subscript)
  have "queue_from a (map_get ?s p @ [(l, x)]) (map_get m p)"
    using queue_from_get [OF s, of p] assms(2) by (auto simp: queue_from_iff)
  with s show ?thesis by (simp add: level_push_back_def Let_def levels_from_put)
qed

lemma levels_from_cancel:
  assumes "levels_from a m' m"
  shows "levels_from a (let s = map_subscript cmp m' p; orders = list_erase (map_get s p) l
                        in if orders = [] then map_erase s p else map_put s p orders) m"
proof -
  let ?s = "map_subscript cmp m' p"
  have s: "levels_from a ?s m" using assms by (rule levels_from_subscript)
  have "queue_from a (list_erase (map_get ?s p) l) (map_get m p)"
    using queue_from_get [OF s, of p]
    by (rule queue_from_subset [rotated]) (auto simp: list_erase_def)
  with s show ?thesis by (simp add: Let_def levels_from_put levels_from_erase)
qed

lemma sorted_wrt_distinct: "sorted_wrt R xs \<Longrightarrow> (\<And>x. \<not> R x x) \<Longrightarrow> distinct xs"
  by (induction xs) auto

lemma map_get_member: "distinct (map fst m) \<Longrightarrow> (k, v) \<in> set m \<Longrightarrow> map_get m k = v"
  by (simp add: map_get_def)

lemma levels_from_refl:
  assumes "distinct (map fst m)"
  shows "levels_from a m m"
  unfolding levels_from_iff queue_from_iff
  using map_get_member [OF assms] descends_refl by blast

lemma book_from_refl: "ordered b \<Longrightarrow> book_from b b"
  by (auto simp: book_from_def ordered_def std_greater_def std_less_def
      intro!: levels_from_refl sorted_wrt_distinct)


lemma MatchStep_descends:
  assumes step: "MatchStep bidPrice askPrice bids asks b = Inr (bids', asks', b', t)"
    and "sound_queue bids" and "sound_queue asks" and "bids \<noteq> []" and "asks \<noteq> []"
  shows "\<forall>n2 \<in> set bids'. \<exists>n1 \<in> set bids. descends n2 n1"
    and "\<forall>n2 \<in> set asks'. \<exists>n1 \<in> set asks. descends n2 n1"
proof -
  obtain bl bid bs where bids: "bids = (bl, bid) # bs" using assms(4) by (cases bids) auto
  obtain al ask as where asks: "asks = (al, ask) # as" using assms(5) by (cases asks) auto
  have w: "0 \<le>s GetRemainingQuantity bid" "0 \<le>s GetRemainingQuantity ask"
    using assms(2,3) by (simp_all add: bids asks sound_queue_def within_initial_def)
  let ?q = "std_min (GetRemainingQuantity bid) (GetRemainingQuantity ask)"
  have hb: "descends (bl, bid\<lparr>GetRemainingQuantity := GetRemainingQuantity bid - ?q\<rparr>) (bl, bid)"
    using fill_within [OF w] by (simp add: descends_def)
  have ha: "descends (al, ask\<lparr>GetRemainingQuantity := GetRemainingQuantity ask - ?q\<rparr>) (al, ask)"
    using fill_within_right [OF w] by (simp add: descends_def)
  have "bids' = bs \<or> bids' = (bl, bid\<lparr>GetRemainingQuantity := GetRemainingQuantity bid - ?q\<rparr>) # bs"
    using step by (auto simp: MatchStep_eq Let_def bids asks split: if_splits)
  then show "\<forall>n2 \<in> set bids'. \<exists>n1 \<in> set bids. descends n2 n1"
    using hb descends_refl by (fastforce simp: bids)
  have "asks' = as \<or> asks' = (al, ask\<lparr>GetRemainingQuantity := GetRemainingQuantity ask - ?q\<rparr>) # as"
    using step by (auto simp: MatchStep_eq Let_def bids asks split: if_splits)
  then show "\<forall>n2 \<in> set asks'. \<exists>n1 \<in> set asks. descends n2 n1"
    using ha descends_refl by (fastforce simp: asks)
qed

lemma MatchStep_aged:
  assumes a: "aged_step c bidPrice askPrice bids asks b"
    and ne: "bids \<noteq> []" "asks \<noteq> []"
    and step: "MatchStep bidPrice askPrice bids asks b = Inr (bids', asks', b', t)"
  shows "aged_step c bidPrice askPrice bids' asks' b'"
proof -
  from a have s: "sound b" "sound_queue bids" "sound_queue asks" and f: "book_from b c"
    and qb: "queue_from (allocated c) bids (map_get (bids_map c) bidPrice)"
    and qa: "queue_from (allocated c) asks (map_get (asks_map c) askPrice)"
    by (simp_all add: aged_step_def)
  note d = MatchStep_descends [OF step s(2,3) ne]
  have qb': "queue_from (allocated c) bids' (map_get (bids_map c) bidPrice)"
    using d(1) qb by (rule queue_from_step)
  have qa': "queue_from (allocated c) asks' (map_get (asks_map c) askPrice)"
    using d(2) qa by (rule queue_from_step)
  have "book_from b' c"
    using f qb' qa' MatchStep_maps [OF step] MatchStep_allocated [OF step]
    by (simp add: book_from_def levels_from_erase levels_from_put)
  with MatchStep_sound [OF step s ne] qb' qa' show ?thesis by (simp add: aged_step_def)
qed

lemma book_from_dispose: "book_from (dispose_ask asks (dispose_bid bids b)) c = book_from b c"
  by (simp add: book_from_def dispose_maps dispose_allocated)

lemma levels_from_head:
  "levels_from a m' m \<Longrightarrow> m' \<noteq> [] \<Longrightarrow> queue_from a (snd (hd m')) (map_get m (fst (hd m')))"
  by (cases m') (auto simp: levels_from_def)

lemma MatchLoop_aged:
  assumes "MatchLoop b trades = Some (Inr (b', trades'))" and "sound b \<and> book_from b c"
  shows "sound b' \<and> book_from b' c"
proof (rule MatchLoop_invariant [where I = "\<lambda>b. sound b \<and> book_from b c", OF assms])
  fix b trades bids asks b1 trades1
  assume i: "sound b \<and> book_from b c" and ne: "bids_map b \<noteq> []" "asks_map b \<noteq> []"
    and lv: "MatchLevels (fst (hd (bids_map b))) (fst (hd (asks_map b)))
        (snd (hd (bids_map b))) (snd (hd (asks_map b))) b trades = Inr (bids, asks, b1, trades1)"
  have start: "aged_step c (fst (hd (bids_map b))) (fst (hd (asks_map b)))
        (snd (hd (bids_map b))) (snd (hd (asks_map b))) b"
    using i ne sound_head_queues [of b]
    by (simp add: aged_step_def book_from_def levels_from_head)
  have "aged_step c (fst (hd (bids_map b))) (fst (hd (asks_map b))) bids asks b1"
    by (rule MatchLevels_invariant [where J = "aged_step c", OF lv start]) (rule MatchStep_aged)
  then show "sound (dispose_ask asks (dispose_bid bids b1))
             \<and> book_from (dispose_ask asks (dispose_bid bids b1)) c"
    by (simp add: aged_step_def sound_dispose book_from_dispose)
qed

lemma book_from_insert_order: "book_from b c \<Longrightarrow> book_from (insert_order b x) c"
  by (simp add: book_from_def insert_order_def Let_def levels_from_push_back)

lemma book_from_CancelOrder: "book_from b c \<Longrightarrow> book_from (CancelOrder b k) c"
  using levels_from_cancel [of "allocated c" "bids_map b" "bids_map c" std_greater]
    levels_from_cancel [of "allocated c" "asks_map b" "asks_map c" std_less]
  by (auto simp: book_from_def CancelOrder_def Let_def split: option.splits)

lemma AddOrder_aged:
  assumes "sound b \<and> book_from b c" and "within_initial x"
    and "AddOrder b x = Some (Inr (b', trades))"
  shows "sound b' \<and> book_from b' c"
proof (cases "AddOrder b x = MatchLoop (insert_order b x) []")
  case True
  with assms(3) have m: "MatchLoop (insert_order b x) [] = Some (Inr (b', trades))" by simp
  from assms(1,2) have "sound (insert_order b x) \<and> book_from (insert_order b x) c"
    by (simp add: sound_insert_order book_from_insert_order)
  from MatchLoop_aged [OF m this] show ?thesis .
next
  case False
  then have "AddOrder b x = Some (Inr (b, []))"
    by (auto simp: AddOrder_def MatchOrders_def split: if_splits)
  with assms(1,3) show ?thesis by simp
qed

lemma ModifyOrder_aged:
  assumes "sound b \<and> book_from b c" and "0 \<le>s GetOrderQuantity m"
    and "ModifyOrder b m = Some (Inr (b', trades))"
  shows "sound b' \<and> book_from b' c"
proof (cases "orders_map b (GetModifyOrderId m)")
  case None
  with assms show ?thesis by (simp add: ModifyOrder_def)
next
  case (Some existing)
  let ?c = "CancelOrder b (GetModifyOrderId m)"
  let ?x = "ToOrderPointer m (GetOrderType (order existing))"
  have sc: "sound ?c \<and> book_from ?c c"
    using assms(1) by (simp add: sound_CancelOrder book_from_CancelOrder)
  have wx: "within_initial ?x" using assms(2) by (simp add: ToOrderPointer_def within_initial_new)
  from assms(3) Some obtain b1 dropped where
    a: "AddOrder ?c ?x = Some (Inr (b1, dropped))" and m: "MatchLoop b1 [] = Some (Inr (b', trades))"
    by (auto simp: ModifyOrder_def MatchOrders_def split: option.splits sum.splits)
  from MatchLoop_aged [OF m AddOrder_aged [OF sc wx a]] show ?thesis .
qed

lemma call_aged:
  assumes "sound b" and "ordered b" and "nonneg_quantity c"
    and "call b c = Some (Inr (b', trades))"
  shows "book_from b' b"
proof -
  have start: "sound b \<and> book_from b b" using assms(1,2) by (simp add: book_from_refl)
  show ?thesis
  proof (cases c)
    case (Submit k t q p s)
    with assms(3,4) AddOrder_aged [OF start, of "Order_new k t q p s" b' trades]
    show ?thesis by (simp add: within_initial_new)
  next
    case (Cancel k)
    with assms(4) start show ?thesis by (auto simp: book_from_CancelOrder)
  next
    case (Modify k s q p)
    with assms(3,4) ModifyOrder_aged [OF start, of "\<lparr>GetModifyOrderId = k, GetOrderSide = s,
        GetOrderQuantity = q, GetOrderPrice = p\<rparr>" b' trades]
    show ?thesis by simp
  qed
qed

lemma book_from_bids:
  assumes "book_from b' b" and "(p, q') \<in> set (bids_map b')" and "n' \<in> set q'"
  shows "(\<exists>n \<in> set (map_get (bids_map b) p). descends n' n) \<or> allocated b \<le> fst n'"
  using assms by (auto simp: book_from_def levels_from_iff queue_from_iff)

lemma book_from_asks:
  assumes "book_from b' b" and "(p, q') \<in> set (asks_map b')" and "n' \<in> set q'"
  shows "(\<exists>n \<in> set (map_get (asks_map b) p). descends n' n) \<or> allocated b \<le> fst n'"
  using assms by (auto simp: book_from_def levels_from_iff queue_from_iff)


lemma map_get_subscript_bids:
  "ordered b \<Longrightarrow> map_get (map_subscript std_greater (bids_map b) p) p = map_get (bids_map b) p"
  by (intro map_get_subscript) (auto simp: ordered_def std_greater_def)

lemma map_get_subscript_asks:
  "ordered b \<Longrightarrow> map_get (map_subscript std_less (asks_map b) p) p = map_get (asks_map b) p"
  by (intro map_get_subscript) (auto simp: ordered_def std_less_def)

lemma ordered_member:
  assumes "ordered b"
  shows "(p, q) \<in> set (bids_map b) \<Longrightarrow> map_get (bids_map b) p = q"
    and "(p, q) \<in> set (asks_map b) \<Longrightarrow> map_get (asks_map b) p = q"
  using assms
  by (auto simp: ordered_def std_greater_def std_less_def
      intro!: map_get_member sorted_wrt_distinct)

text \<open>\<^verbatim>\<open>CancelOrder\<close> changes no order: what it leaves in a queue was there before.\<close>

lemma CancelOrder_nodes:
  assumes o: "ordered b"
  shows "(p, q') \<in> set (bids_map (CancelOrder b k)) \<Longrightarrow> n' \<in> set q' \<Longrightarrow>
           n' \<in> set (map_get (bids_map b) p)"
    and "(p, q') \<in> set (asks_map (CancelOrder b k)) \<Longrightarrow> n' \<in> set q' \<Longrightarrow>
           n' \<in> set (map_get (asks_map b) p)"
proof -
  have sub: "(p, q') \<in> set (let s = map_subscript cmp m pk; orders = list_erase (map_get s pk) l
                        in if orders = [] then map_erase s pk else map_put s pk orders) \<Longrightarrow>
        n' \<in> set q' \<Longrightarrow> map_get (map_subscript cmp m pk) pk = map_get m pk \<Longrightarrow>
        (\<And>v. (p, v) \<in> set m \<Longrightarrow> map_get m p = v) \<Longrightarrow> n' \<in> set (map_get m p)"
    for cmp m pk l
    by (auto simp: Let_def in_map_erase list_erase_def split: if_splits
        dest!: in_map_put dest: in_map_subscript)
  show "(p, q') \<in> set (bids_map (CancelOrder b k)) \<Longrightarrow> n' \<in> set q' \<Longrightarrow>
           n' \<in> set (map_get (bids_map b) p)"
    using sub [of std_greater "bids_map b"] map_get_subscript_bids [OF o] ordered_member(1) [OF o]
    by (auto simp: CancelOrder_def Let_def split: option.splits if_splits)
  show "(p, q') \<in> set (asks_map (CancelOrder b k)) \<Longrightarrow> n' \<in> set q' \<Longrightarrow>
           n' \<in> set (map_get (asks_map b) p)"
    using sub [of std_less "asks_map b"] map_get_subscript_asks [OF o] ordered_member(2) [OF o]
    by (auto simp: CancelOrder_def Let_def split: option.splits if_splits)
qed


text \<open>Inserting an order changes no other order.\<close>

lemma insert_order_nodes:
  assumes o: "ordered b"
  shows "(p, q') \<in> set (bids_map (insert_order b y)) \<Longrightarrow> n' \<in> set q' \<Longrightarrow>
           n' \<in> set (map_get (bids_map b) p) \<or> n' = (allocated b, y)"
    and "(p, q') \<in> set (asks_map (insert_order b y)) \<Longrightarrow> n' \<in> set q' \<Longrightarrow>
           n' \<in> set (map_get (asks_map b) p) \<or> n' = (allocated b, y)"
proof -
  have sub: "(p, q') \<in> set (level_push_back cmp m pk n) \<Longrightarrow>
        n' \<in> set q' \<Longrightarrow> map_get (map_subscript cmp m pk) pk = map_get m pk \<Longrightarrow>
        (\<And>v. (p, v) \<in> set m \<Longrightarrow> map_get m p = v) \<Longrightarrow> n' \<in> set (map_get m p) \<or> n' = n"
    for cmp m pk n
    by (auto simp: level_push_back_def Let_def dest!: in_map_put dest: in_map_subscript)
  show "(p, q') \<in> set (bids_map (insert_order b y)) \<Longrightarrow> n' \<in> set q' \<Longrightarrow>
           n' \<in> set (map_get (bids_map b) p) \<or> n' = (allocated b, y)"
    using sub [of std_greater "bids_map b"] map_get_subscript_bids [OF o] ordered_member(1) [OF o]
    by (auto simp: insert_order_def Let_def split: if_splits)
  show "(p, q') \<in> set (asks_map (insert_order b y)) \<Longrightarrow> n' \<in> set q' \<Longrightarrow>
           n' \<in> set (map_get (asks_map b) p) \<or> n' = (allocated b, y)"
    using sub [of std_less "asks_map b"] map_get_subscript_asks [OF o] ordered_member(2) [OF o]
    by (auto simp: insert_order_def Let_def split: if_splits)
qed


lemma std_min_nonneg: "0 \<le>s a \<Longrightarrow> 0 \<le>s c \<Longrightarrow> 0 \<le>s std_min a c"
  by (simp add: std_min_def)

text \<open>
  Claim C8, amended. In every book reached from the empty one by calls that submit no
  negative quantity, every order in a queue has \<open>0 \<le> remaining \<le> initial\<close>. From such a
  book to the book after one more such call, every order is either new or the order of
  the same handle, side and price of the book before, with a remaining quantity that is
  not greater and nothing else changed. The remaining quantity changes in the body of
  the matching loop only: there both heads lose the smaller of their two remaining
  quantities, which is not negative, and what remains is not negative and not greater
  than before; \<^verbatim>\<open>CancelOrder\<close> leaves in a queue only orders that were there, unchanged, and
  the insertion of \<^verbatim>\<open>AddOrder\<close> only adds the new order.
\<close>

theorem remaining_within_initial:
  assumes "run empty_book cs = Some (b, rs)" and "list_all nonneg_quantity cs"
  shows
    "(x \<in> resting b \<longrightarrow>
        0 \<le>s GetRemainingQuantity x \<and> GetRemainingQuantity x \<le>s GetInitialQuantity x)
     \<and> sound b \<and> ordered b \<and> fifo b
     \<and> (within_initial y \<longrightarrow> sound (insert_order b y) \<and> ordered (insert_order b y))
     \<and> (nonneg_quantity c \<and> call b c = Some (Inr (b', trades)) \<longrightarrow>
          (\<forall>p q' n'. (p, q') \<in> set (bids_map b') \<and> n' \<in> set q' \<longrightarrow>
             (\<exists>n \<in> set (map_get (bids_map b) p). descends n' n) \<or> allocated b \<le> fst n')
          \<and> (\<forall>p q' n'. (p, q') \<in> set (asks_map b') \<and> n' \<in> set q' \<longrightarrow>
             (\<exists>n \<in> set (map_get (asks_map b) p). descends n' n) \<or> allocated b \<le> fst n'))
     \<and> (sound k \<and> ordered k \<and> bids_map k = (bidPrice, (bl, bid) # bids) # bm
          \<and> asks_map k = (askPrice, (al, ask) # asks) # am \<longrightarrow>
          MatchStep bidPrice askPrice ((bl, bid) # bids) ((al, ask) # asks) k =
            (let quantity = std_min (GetRemainingQuantity bid) (GetRemainingQuantity ask);
                 bids' = (if GetRemainingQuantity bid = quantity then bids
                          else (bl, bid\<lparr>GetRemainingQuantity := GetRemainingQuantity bid - quantity\<rparr>) # bids);
                 asks' = (if GetRemainingQuantity ask = quantity then asks
                          else (al, ask\<lparr>GetRemainingQuantity := GetRemainingQuantity ask - quantity\<rparr>) # asks);
                 orders1 = (if GetRemainingQuantity bid = quantity
                            then (orders_map k)(GetOrderId bid := None) else orders_map k);
                 orders2 = (if GetRemainingQuantity ask = quantity
                            then orders1(GetOrderId ask := None) else orders1)
             in Inr (bids', asks',
                     k\<lparr>bids_map := (if bids' = [] then bm else (bidPrice, bids') # bm),
                       asks_map := (if asks' = [] then am else (askPrice, asks') # am),
                       orders_map := orders2\<rparr>,
                     \<lparr>bidTrade = \<lparr>orderId = GetOrderId bid, price = GetPrice bid,
                                    quantity = quantity\<rparr>,
                      askTrade = \<lparr>orderId = GetOrderId ask, price = GetPrice ask,
                                    quantity = quantity\<rparr>\<rparr>))
          \<and> 0 \<le>s std_min (GetRemainingQuantity bid) (GetRemainingQuantity ask)
          \<and> 0 \<le>s GetRemainingQuantity bid - std_min (GetRemainingQuantity bid) (GetRemainingQuantity ask)
          \<and> GetRemainingQuantity bid - std_min (GetRemainingQuantity bid) (GetRemainingQuantity ask)
               \<le>s GetRemainingQuantity bid
          \<and> 0 \<le>s GetRemainingQuantity ask - std_min (GetRemainingQuantity bid) (GetRemainingQuantity ask)
          \<and> GetRemainingQuantity ask - std_min (GetRemainingQuantity bid) (GetRemainingQuantity ask)
               \<le>s GetRemainingQuantity ask
          \<and> (\<forall>bids' asks' k' t.
                MatchStep bidPrice askPrice ((bl, bid) # bids) ((al, ask) # asks) k =
                  Inr (bids', asks', k', t) \<longrightarrow> sound k' \<and> ordered k'))
     \<and> (\<forall>p q' n'. (p, q') \<in> set (bids_map (CancelOrder b i)) \<and> n' \<in> set q' \<longrightarrow>
            n' \<in> set (map_get (bids_map b) p))
     \<and> (\<forall>p q' n'. (p, q') \<in> set (asks_map (CancelOrder b i)) \<and> n' \<in> set q' \<longrightarrow>
            n' \<in> set (map_get (asks_map b) p))
     \<and> (\<forall>p q' n'. (p, q') \<in> set (bids_map (insert_order b y)) \<and> n' \<in> set q' \<longrightarrow>
            n' \<in> set (map_get (bids_map b) p) \<or> n' = (allocated b, y))
     \<and> (\<forall>p q' n'. (p, q') \<in> set (asks_map (insert_order b y)) \<and> n' \<in> set q' \<longrightarrow>
            n' \<in> set (map_get (asks_map b) p) \<or> n' = (allocated b, y))"
    (is "?bound \<and> ?sound \<and> ?ordered \<and> ?fifo \<and> ?insert \<and> ?next \<and> ?step
         \<and> ?cancel_bids \<and> ?cancel_asks \<and> ?insert_bids \<and> ?insert_asks")
proof -
  have "sound empty_book" by (simp add: sound_def sound_levels_def empty_book_def)
  from run_sound [OF this assms(2,1)] have s: "sound b" .
  have "ordered empty_book" by (simp add: ordered_def empty_book_def)
  from run_ordered [OF this assms(1)] have o: "ordered b" .
  have "fifo empty_book" by (simp add: fifo_def fifo_levels_def empty_book_def)
  from run_fifo [OF this assms(1)] have f: "fifo b" .
  have bound: ?bound
    using sound_resting [OF s, of x] by (simp add: within_initial_def)
  have ins: ?insert
    using s o by (simp add: sound_insert_order ordered_insert_order)
  have "next": ?next
  proof (intro impI, elim conjE)
    assume "nonneg_quantity c" and "call b c = Some (Inr (b', trades))"
    from call_aged [OF s o this] have "book_from b' b" .
    then show "(\<forall>p q' n'. (p, q') \<in> set (bids_map b') \<and> n' \<in> set q' \<longrightarrow>
             (\<exists>n \<in> set (map_get (bids_map b) p). descends n' n) \<or> allocated b \<le> fst n')
          \<and> (\<forall>p q' n'. (p, q') \<in> set (asks_map b') \<and> n' \<in> set q' \<longrightarrow>
             (\<exists>n \<in> set (map_get (asks_map b) p). descends n' n) \<or> allocated b \<le> fst n')"
      using book_from_bids book_from_asks by blast
  qed
  have step: ?step
  proof (intro impI, elim conjE)
    assume sk: "sound k" and ok: "ordered k"
      and hb: "bids_map k = (bidPrice, (bl, bid) # bids) # bm"
      and ha: "asks_map k = (askPrice, (al, ask) # asks) # am"
    have q: "sound_queue ((bl, bid) # bids)" "sound_queue ((al, ask) # asks)"
      using sk hb ha by (simp_all add: sound_def sound_levels_def)
    then have w: "0 \<le>s GetRemainingQuantity bid" "0 \<le>s GetRemainingQuantity ask"
      by (simp_all add: sound_queue_def within_initial_def)
    have keep: "\<forall>bids' asks' k' t.
        MatchStep bidPrice askPrice ((bl, bid) # bids) ((al, ask) # asks) k =
          Inr (bids', asks', k', t) \<longrightarrow> sound k' \<and> ordered k'"
      using MatchStep_sound [OF _ sk q] MatchStep_ordered [OF _ ok] by blast
    from MatchStep_heads [OF hb ha ordered_head_keys(1) [OF ok hb] ordered_head_keys(2) [OF ok ha]]
      std_min_nonneg [OF w] fill_within [OF w] fill_within_right [OF w] keep
    show "MatchStep bidPrice askPrice ((bl, bid) # bids) ((al, ask) # asks) k =
            (let quantity = std_min (GetRemainingQuantity bid) (GetRemainingQuantity ask);
                 bids' = (if GetRemainingQuantity bid = quantity then bids
                          else (bl, bid\<lparr>GetRemainingQuantity := GetRemainingQuantity bid - quantity\<rparr>) # bids);
                 asks' = (if GetRemainingQuantity ask = quantity then asks
                          else (al, ask\<lparr>GetRemainingQuantity := GetRemainingQuantity ask - quantity\<rparr>) # asks);
                 orders1 = (if GetRemainingQuantity bid = quantity
                            then (orders_map k)(GetOrderId bid := None) else orders_map k);
                 orders2 = (if GetRemainingQuantity ask = quantity
                            then orders1(GetOrderId ask := None) else orders1)
             in Inr (bids', asks',
                     k\<lparr>bids_map := (if bids' = [] then bm else (bidPrice, bids') # bm),
                       asks_map := (if asks' = [] then am else (askPrice, asks') # am),
                       orders_map := orders2\<rparr>,
                     \<lparr>bidTrade = \<lparr>orderId = GetOrderId bid, price = GetPrice bid,
                                    quantity = quantity\<rparr>,
                      askTrade = \<lparr>orderId = GetOrderId ask, price = GetPrice ask,
                                    quantity = quantity\<rparr>\<rparr>))
          \<and> 0 \<le>s std_min (GetRemainingQuantity bid) (GetRemainingQuantity ask)
          \<and> 0 \<le>s GetRemainingQuantity bid - std_min (GetRemainingQuantity bid) (GetRemainingQuantity ask)
          \<and> GetRemainingQuantity bid - std_min (GetRemainingQuantity bid) (GetRemainingQuantity ask)
               \<le>s GetRemainingQuantity bid
          \<and> 0 \<le>s GetRemainingQuantity ask - std_min (GetRemainingQuantity bid) (GetRemainingQuantity ask)
          \<and> GetRemainingQuantity ask - std_min (GetRemainingQuantity bid) (GetRemainingQuantity ask)
               \<le>s GetRemainingQuantity ask
          \<and> (\<forall>bids' asks' k' t.
                MatchStep bidPrice askPrice ((bl, bid) # bids) ((al, ask) # asks) k =
                  Inr (bids', asks', k', t) \<longrightarrow> sound k' \<and> ordered k')"
      by blast
  qed
  have cb: ?cancel_bids using CancelOrder_nodes(1) [OF o] by blast
  have ca: ?cancel_asks using CancelOrder_nodes(2) [OF o] by blast
  have ib: ?insert_bids using insert_order_nodes(1) [OF o] by blast
  have ia: ?insert_asks using insert_order_nodes(2) [OF o] by blast
  from bound s o f ins "next" step cb ca ib ia show ?thesis by (intro conjI)
qed




theorem remaining_within_initial_witness:
  "run empty_book [Submit 1 GoodTillCancel 5 100 Sell, Submit 3 GoodTillCancel 7 100 Sell] =
     Some (book_two_asks, [[], []])
   \<and> list_all nonneg_quantity
        [Submit 1 GoodTillCancel 5 100 Sell, Submit 3 GoodTillCancel 7 100 Sell]
   \<and> Order_new 3 GoodTillCancel 7 100 Sell \<in> resting book_two_asks
   \<and> (0 :: Quantity) \<le>s 7 \<and> (7 :: Quantity) \<le>s 7
   \<and> nonneg_quantity (Submit 2 GoodTillCancel 4 100 Buy)
   \<and> call book_two_asks (Submit 2 GoodTillCancel 4 100 Buy) =
       Some (Inr (book_two_asks_hit,
                  [\<lparr>bidTrade = \<lparr>orderId = 2, price = 100, quantity = 4\<rparr>,
                    askTrade = \<lparr>orderId = 1, price = 100, quantity = 4\<rparr>\<rparr>]))
   \<and> asks_map book_two_asks_hit =
       [(100, [(0, \<lparr>GetOrderId = 1, GetOrderType = GoodTillCancel, GetInitialQuantity = 5,
                     GetRemainingQuantity = 1, GetPrice = 100, GetSide = Sell\<rparr>),
               (1, Order_new 3 GoodTillCancel 7 100 Sell)])]
   \<and> map_get (asks_map book_two_asks) 100 =
       [(0, Order_new 1 GoodTillCancel 5 100 Sell), (1, Order_new 3 GoodTillCancel 7 100 Sell)]
   \<and> descends (0, \<lparr>GetOrderId = 1, GetOrderType = GoodTillCancel, GetInitialQuantity = 5,
                     GetRemainingQuantity = 1, GetPrice = 100, GetSide = Sell\<rparr>)
        (0, Order_new 1 GoodTillCancel 5 100 Sell)
   \<and> \<not> descends (0, \<lparr>GetOrderId = 1, GetOrderType = GoodTillCancel, GetInitialQuantity = 5,
                     GetRemainingQuantity = 1, GetPrice = 100, GetSide = Sell\<rparr>)
        (1, Order_new 3 GoodTillCancel 7 100 Sell)
   \<and> \<not> allocated book_two_asks \<le> 0
   \<and> sound (insert_order book_two_asks (Order_new 2 GoodTillCancel 4 100 Buy))
   \<and> ordered (insert_order book_two_asks (Order_new 2 GoodTillCancel 4 100 Buy))
   \<and> MatchStep 100 100 [(2, Order_new 2 GoodTillCancel 4 100 Buy)]
        [(0, Order_new 1 GoodTillCancel 5 100 Sell), (1, Order_new 3 GoodTillCancel 7 100 Sell)]
        (insert_order book_two_asks (Order_new 2 GoodTillCancel 4 100 Buy)) =
      Inr ([],
           [(0, \<lparr>GetOrderId = 1, GetOrderType = GoodTillCancel, GetInitialQuantity = 5,
                  GetRemainingQuantity = 1, GetPrice = 100, GetSide = Sell\<rparr>),
            (1, Order_new 3 GoodTillCancel 7 100 Sell)],
           (insert_order book_two_asks (Order_new 2 GoodTillCancel 4 100 Buy))
             \<lparr>bids_map := [],
              asks_map := [(100, [(0, \<lparr>GetOrderId = 1, GetOrderType = GoodTillCancel,
                                       GetInitialQuantity = 5, GetRemainingQuantity = 1,
                                       GetPrice = 100, GetSide = Sell\<rparr>),
                                  (1, Order_new 3 GoodTillCancel 7 100 Sell)])],
              orders_map :=
                (orders_map (insert_order book_two_asks (Order_new 2 GoodTillCancel 4 100 Buy)))
                  (2 := None)\<rparr>,
           \<lparr>bidTrade = \<lparr>orderId = 2, price = 100, quantity = 4\<rparr>,
            askTrade = \<lparr>orderId = 1, price = 100, quantity = 4\<rparr>\<rparr>)
   \<and> (0 :: Quantity) \<le>s 4 \<and> (0 :: Quantity) \<le>s 5 - 4 \<and> (5 - 4 :: Quantity) \<le>s 5
   \<and> asks_map (CancelOrder book_two_asks 1) = [(100, [(1, Order_new 3 GoodTillCancel 7 100 Sell)])]
   \<and> (1, Order_new 3 GoodTillCancel 7 100 Sell) \<in> set (map_get (asks_map book_two_asks) 100)
   \<and> bids_map (insert_order book_two_asks (Order_new 2 GoodTillCancel 4 100 Buy)) =
       [(100, [(2, Order_new 2 GoodTillCancel 4 100 Buy)])]
   \<and> map_get (bids_map book_two_asks) 100 = []
   \<and> allocated book_two_asks = 2"
proof -
  let ?cs = "[Submit 1 GoodTillCancel 5 100 Sell, Submit 3 GoodTillCancel 7 100 Sell]"
  let ?c = "Submit 2 GoodTillCancel 4 100 Buy"
  let ?y = "Order_new 2 GoodTillCancel 4 100 Buy"
  let ?k = "insert_order book_two_asks ?y"
  let ?n' = "(0 :: nat, \<lparr>GetOrderId = 1, GetOrderType = GoodTillCancel, GetInitialQuantity = 5,
                     GetRemainingQuantity = 1, GetPrice = 100, GetSide = Sell\<rparr>)"
  let ?t = "\<lparr>bidTrade = \<lparr>orderId = 2, price = 100, quantity = 4\<rparr>,
            askTrade = \<lparr>orderId = 1, price = 100, quantity = 4\<rparr>\<rparr>"
  note r = run_book_two_asks
  have n: "list_all nonneg_quantity ?cs" by (simp add: word_sle_eq)
  have m: "Order_new 3 GoodTillCancel 7 100 Sell \<in> resting book_two_asks"
    by (auto simp: resting_def level_orders_def book_two_asks_def)
  have nc: "nonneg_quantity ?c" by (simp add: word_sle_eq)
  note c = call_book_two_asks
  have hit: "asks_map book_two_asks_hit =
       [(100, [?n', (1, Order_new 3 GoodTillCancel 7 100 Sell)])]"
    by (simp add: book_two_asks_hit_def)
  have lvl: "map_get (asks_map book_two_asks) 100 =
       [(0, Order_new 1 GoodTillCancel 5 100 Sell), (1, Order_new 3 GoodTillCancel 7 100 Sell)]"
    by (simp add: map_get_def book_two_asks_def)
  have al: "\<not> allocated book_two_asks \<le> 0" by (simp add: book_two_asks_def)
  have hb: "bids_map ?k = (100, (2, ?y) # []) # []"
    by (simp add: engine_defs book_two_asks_def)
  have ha: "asks_map ?k = (100, (0, Order_new 1 GoodTillCancel 5 100 Sell)
                                 # [(1, Order_new 3 GoodTillCancel 7 100 Sell)]) # []"
    by (simp add: engine_defs book_two_asks_def)
  have wy: "within_initial ?y" by (simp add: within_initial_new word_sle_eq)
  have nd: "\<not> descends ?n' (1, Order_new 3 GoodTillCancel 7 100 Sell)"
    by (simp add: descends_def)
  note t = remaining_within_initial [OF r n, where x = "Order_new 3 GoodTillCancel 7 100 Sell"
      and y = ?y and c = ?c and b' = book_two_asks_hit and trades = "[?t]"
      and k = ?k and bidPrice = 100 and bl = 2 and bid = ?y and bids = "[]" and bm = "[]"
      and askPrice = 100 and al = 0 and ask = "Order_new 1 GoodTillCancel 5 100 Sell"
      and asks = "[(1, Order_new 3 GoodTillCancel 7 100 Sell)]" and am = "[]" and i = 1]
  note t_bound = t [THEN conjunct1, THEN mp, OF m]
  note t_insert = t [THEN conjunct2, THEN conjunct2, THEN conjunct2, THEN conjunct2,
      THEN conjunct1, THEN mp, OF wy]
  note t_next = t [THEN conjunct2, THEN conjunct2, THEN conjunct2, THEN conjunct2,
      THEN conjunct2, THEN conjunct1, THEN mp, OF conjI [OF nc c], THEN conjunct2,
      THEN spec [where x = "100 :: Price"],
      THEN spec [where x = "[?n', (1, Order_new 3 GoodTillCancel 7 100 Sell)]"],
      THEN spec [where x = ?n'], THEN mp]
  note t_step = t [THEN conjunct2, THEN conjunct2, THEN conjunct2, THEN conjunct2,
      THEN conjunct2, THEN conjunct2, THEN conjunct1, THEN mp,
      OF conjI [OF t_insert [THEN conjunct1] conjI [OF t_insert [THEN conjunct2] conjI [OF hb ha]]]]
  have "(\<exists>n \<in> set (map_get (asks_map book_two_asks) 100). descends ?n' n)
      \<or> allocated book_two_asks \<le> fst ?n'"
    by (rule t_next) (simp add: hit)
  with al nd have d: "descends ?n' (0, Order_new 1 GoodTillCancel 5 100 Sell)"
    by (simp add: lvl)
  have bound: "(0 :: Quantity) \<le>s 7 \<and> (7 :: Quantity) \<le>s 7"
    using t_bound by (simp add: Order_new_def)
  have step: "MatchStep 100 100 [(2, ?y)]
        [(0, Order_new 1 GoodTillCancel 5 100 Sell), (1, Order_new 3 GoodTillCancel 7 100 Sell)] ?k =
      Inr ([], [?n', (1, Order_new 3 GoodTillCancel 7 100 Sell)],
           ?k\<lparr>bids_map := [],
              asks_map := [(100, [?n', (1, Order_new 3 GoodTillCancel 7 100 Sell)])],
              orders_map := (orders_map ?k)(2 := None)\<rparr>, ?t)"
    using t_step [THEN conjunct1]
    by (simp add: Order_new_def std_min_def word_sless_alt Let_def)
  have amounts: "(0 :: Quantity) \<le>s 4 \<and> (0 :: Quantity) \<le>s 5 - 4 \<and> (5 - 4 :: Quantity) \<le>s 5"
    using t_step [THEN conjunct2]
    by (simp add: Order_new_def std_min_def word_sless_alt)
  note t_rest = t [THEN conjunct2, THEN conjunct2, THEN conjunct2, THEN conjunct2,
      THEN conjunct2, THEN conjunct2, THEN conjunct2]
  note t_cancel = t_rest [THEN conjunct2, THEN conjunct1,
      THEN spec [where x = "100 :: Price"],
      THEN spec [where x = "[(1, Order_new 3 GoodTillCancel 7 100 Sell)]"],
      THEN spec [where x = "(1, Order_new 3 GoodTillCancel 7 100 Sell)"], THEN mp]
  note t_submit = t_rest [THEN conjunct2, THEN conjunct2, THEN conjunct1,
      THEN spec [where x = "100 :: Price"], THEN spec [where x = "[(2, ?y)]"],
      THEN spec [where x = "(2, ?y)"], THEN mp]
  have cn: "asks_map (CancelOrder book_two_asks 1) =
      [(100, [(1, Order_new 3 GoodTillCancel 7 100 Sell)])]"
    by (simp add: engine_defs book_two_asks_def)
  have kept: "(1, Order_new 3 GoodTillCancel 7 100 Sell) \<in> set (map_get (asks_map book_two_asks) 100)"
    by (rule t_cancel) (simp add: cn)
  have hb': "bids_map ?k = [(100, [(2, ?y)])]" by (simp add: hb)
  have none: "map_get (bids_map book_two_asks) 100 = []"
    by (simp add: map_get_def book_two_asks_def)
  have "(2, ?y) \<in> set (map_get (bids_map book_two_asks) 100) \<or> (2, ?y) = (allocated book_two_asks, ?y)"
    by (rule t_submit) (simp add: hb')
  then have new: "allocated book_two_asks = 2" by (simp add: none)
  from r n m bound nc c hit lvl d nd al t_insert step amounts cn kept hb' none new show ?thesis
    by (intro conjI) (simp_all only: simp_thms)
qed


end
